theory Spec2Isabelle
  imports Complex_Main "HOL-Library.AList" "HOL-Library.FSet" "HOL-Library.Sublist"
begin

section \<open>Python values used as identifiers\<close>

text \<open>
  The event store takes ids typed \<^verbatim>\<open>int | str\<close> and applies \<^verbatim>\<open>str(...)\<close> to each of
  them. \<open>py_str\<close> is Python's \<^verbatim>\<open>str\<close> on these two kinds of value: the decimal numeral
  of an integer (with a leading minus sign), and the string itself.
\<close>

datatype pyval = PyInt int | PyStr string

definition digit_char :: "nat \<Rightarrow> char" where
  "digit_char d = ''0123456789'' ! d"

fun str_nat :: "nat \<Rightarrow> string" where
  "str_nat n = (if n < 10 then [digit_char n] else str_nat (n div 10) @ [digit_char (n mod 10)])"

declare str_nat.simps [simp del]

fun py_str :: "pyval \<Rightarrow> string" where
  "py_str (PyInt i) = (if i < 0 then CHR ''-'' # str_nat (nat (- i)) else str_nat (nat i))"
| "py_str (PyStr s) = s"

text \<open>The number a string of decimal digits stands for (Python's \<^verbatim>\<open>int\<close> on it).\<close>

definition digit_val :: "char \<Rightarrow> nat" where
  "digit_val c = of_char c - 48"

definition nat_of_digits :: "string \<Rightarrow> nat" where
  "nat_of_digits ds = foldl (\<lambda>a c. 10 * a + digit_val c) 0 ds"

section \<open>HFEventStore: the persistent deduplication store\<close>

text \<open>
  The table \<^verbatim>\<open>events(namespace, key, event_id, seen_at)\<close> with primary key
  \<^verbatim>\<open>(namespace, key, event_id)\<close> is a list of rows in rowid order. A store holds the path
  it was opened on, the committed content of the database (\<open>disk\<close>) and the content the
  open connection sees (\<open>conn\<close>); \<^verbatim>\<open>commit()\<close> copies the second onto the first.
\<close>

record row =
  namespace :: string
  key :: string
  event_id :: string
  seen_at :: int

type_synonym table = "row list"

datatype error = IntegrityError | ValueError | OperationalError

record store =
  db_path :: string
  disk :: table
  conn :: table

definition pk_match :: "string \<Rightarrow> string \<Rightarrow> string \<Rightarrow> row \<Rightarrow> bool" where
  "pk_match ns k e r = (namespace r = ns \<and> key r = k \<and> event_id r = e)"

text \<open>\<^verbatim>\<open>SELECT 1 FROM events WHERE namespace=? AND key=? AND event_id=? LIMIT 1\<close>, then
  \<^verbatim>\<open>fetchone()\<close>.\<close>

definition select_one :: "table \<Rightarrow> string \<Rightarrow> string \<Rightarrow> string \<Rightarrow> row option" where
  "select_one t ns k e = find (pk_match ns k e) t"

text \<open>\<^verbatim>\<open>INSERT INTO events\<close>: a row whose primary key is present raises IntegrityError.\<close>

definition insert_row :: "row \<Rightarrow> table \<Rightarrow> error + table" where
  "insert_row r t =
     (if list_ex (pk_match (namespace r) (key r) (event_id r)) t then Inl IntegrityError
      else Inr (t @ [r]))"

text \<open>\<^verbatim>\<open>INSERT OR IGNORE INTO events\<close>: a row whose primary key is present is skipped.\<close>

definition insert_or_ignore :: "row \<Rightarrow> table \<Rightarrow> table" where
  "insert_or_ignore r t =
     (if list_ex (pk_match (namespace r) (key r) (event_id r)) t then t else t @ [r])"

definition commit :: "store \<Rightarrow> store" where
  "commit s = s\<lparr>disk := conn s\<rparr>"

text \<open>
  \<^verbatim>\<open>HFEventStore(db_path)\<close>: connect and run \<^verbatim>\<open>CREATE TABLE IF NOT EXISTS\<close>, which leaves
  an existing table as it is. \<^verbatim>\<open>sqlite3.connect\<close> opens a private database on two paths:
  \<^verbatim>\<open>:memory:\<close> is a database in memory and the empty path is a temporary database on
  disk; each starts empty, is seen by no later connection and is gone when the connection
  is. Every other path names a database file, which keeps what was committed. \<open>file\<close> is
  the committed content found under the path.
\<close>

definition persistent :: "string \<Rightarrow> bool" where
  "persistent path = (path \<noteq> '':memory:'' \<and> path \<noteq> '''')"

definition open_store :: "string \<Rightarrow> table \<Rightarrow> store" where
  "open_store path file =
     (let t = (if persistent path then file else [])
      in \<lparr>db_path = path, disk = t, conn = t\<rparr>)"


definition has :: "store \<Rightarrow> string \<Rightarrow> pyval \<Rightarrow> pyval \<Rightarrow> bool" where
  "has s ns k e = (select_one (conn s) ns (py_str k) (py_str e) \<noteq> None)"

definition add :: "store \<Rightarrow> string \<Rightarrow> pyval \<Rightarrow> pyval \<Rightarrow> int \<Rightarrow> store" where
  "add s ns k e now =
     commit (s\<lparr>conn := insert_or_ignore
        \<lparr>namespace = ns, key = py_str k, event_id = py_str e, seen_at = now\<rparr> (conn s)\<rparr>)"

definition add_if_new :: "store \<Rightarrow> string \<Rightarrow> pyval \<Rightarrow> pyval \<Rightarrow> int \<Rightarrow> error + (bool \<times> store)" where
  "add_if_new s ns k e now =
     (case select_one (conn s) ns (py_str k) (py_str e) of
        Some _ \<Rightarrow> Inr (False, s)
      | None \<Rightarrow>
          (case insert_row \<lparr>namespace = ns, key = py_str k, event_id = py_str e, seen_at = now\<rparr>
                  (conn s) of
             Inl err \<Rightarrow> Inl err
           | Inr t \<Rightarrow> Inr (True, commit (s\<lparr>conn := t\<rparr>))))"

text \<open>
  \<^verbatim>\<open>filter_new\<close> binds one SQL parameter for the namespace, one for the key and one for
  each id, in a single statement. SQLite refuses a statement with more parameters than its
  bound \<^verbatim>\<open>SQLITE_MAX_VARIABLE_NUMBER\<close> (999 before SQLite 3.32, 32766 since, unless the
  library was built otherwise), and \<^verbatim>\<open>execute\<close> then raises \<^verbatim>\<open>sqlite3.OperationalError\<close>.
  The bound is the parameter \<open>max_vars\<close>. The other statements of the store bind three or
  four parameters; they are modelled for a bound of at least four.
\<close>

definition filter_new ::
  "nat \<Rightarrow> store \<Rightarrow> string \<Rightarrow> pyval \<Rightarrow> pyval list \<Rightarrow> error + pyval list" where
  "filter_new max_vars s ns k event_ids =
     (if event_ids = [] then Inr []
      else
        let str_ids = map py_str event_ids in
        if 2 + length str_ids > max_vars then Inl OperationalError
        else
          let rows = map event_id
                (filter (\<lambda>r. namespace r = ns \<and> key r = py_str k \<and> event_id r \<in> set str_ids) (conn s));
              seen = set rows
          in Inr (filter (\<lambda>e. py_str e \<notin> seen) event_ids))"

text \<open>\<^verbatim>\<open>executemany("INSERT OR IGNORE ...")\<close> over the ids, one commit at the end; the
  count is the number of rows inserted.\<close>

fun insert_many :: "row list \<Rightarrow> table \<Rightarrow> table" where
  "insert_many [] t = t"
| "insert_many (r # rs) t = insert_many rs (insert_or_ignore r t)"

definition add_many :: "store \<Rightarrow> string \<Rightarrow> pyval \<Rightarrow> pyval list \<Rightarrow> int \<Rightarrow> nat \<times> store" where
  "add_many s ns k event_ids now =
     (if event_ids = [] then (0, s)
      else
        let rows = map (\<lambda>eid. \<lparr>namespace = ns, key = py_str k, event_id = py_str eid, seen_at = now\<rparr>)
                     event_ids;
            t = insert_many rows (conn s)
        in (length t - length (conn s), commit (s\<lparr>conn := t\<rparr>)))"


section \<open>HFPaginator: the page walker\<close>

text \<open>
  \<^verbatim>\<open>_paginate(fetch_fn, max_pages, perpage, stop_condition, delay)\<close>. A fetch either
  raises (\<open>Inl\<close>) or returns a page. The walk is run together with the list of its
  effects, in order: each \<^verbatim>\<open>time.sleep(delay)\<close> and each call \<^verbatim>\<open>fetch_fn(page)\<close>.
\<close>

datatype effect = Sleep | Fetch int

text \<open>\<^verbatim>\<open>stop_condition and stop_condition(item)\<close>\<close>

definition stops :: "('a \<Rightarrow> bool) option \<Rightarrow> 'a \<Rightarrow> bool" where
  "stops stop_condition item = (case stop_condition of None \<Rightarrow> False | Some p \<Rightarrow> p item)"

text \<open>The inner loop over the items of one page: the items appended to \<open>all_items\<close>, and
  the flag \<open>stop\<close>.\<close>

fun collect :: "('a \<Rightarrow> bool) option \<Rightarrow> 'a list \<Rightarrow> 'a list \<Rightarrow> 'a list \<times> bool" where
  "collect stop_condition [] all_items = (all_items, False)"
| "collect stop_condition (item # items) all_items =
     (if stops stop_condition item then (all_items, True)
      else collect stop_condition items (all_items @ [item]))"

text \<open>The loop \<^verbatim>\<open>for page in range(1, max_pages + 1)\<close>, from \<open>page\<close> on.\<close>

function paginate_from ::
  "(int \<Rightarrow> 'e + 'a list) \<Rightarrow> int \<Rightarrow> int \<Rightarrow> ('a \<Rightarrow> bool) option \<Rightarrow> real \<Rightarrow>
   int \<Rightarrow> 'a list \<Rightarrow> effect list \<Rightarrow> effect list \<times> ('e + 'a list)" where
  "paginate_from fetch_fn max_pages perpage stop_condition delay page all_items tr =
     (if page > max_pages then (tr, Inr all_items)
      else
        let tr1 = (if page > 1 \<and> delay > 0 then tr @ [Sleep] else tr) @ [Fetch page] in
        case fetch_fn page of
          Inl err \<Rightarrow> (tr1, Inl err)
        | Inr items \<Rightarrow>
            if items = [] then (tr1, Inr all_items)
            else
              case collect stop_condition items all_items of
                (acc, stop) \<Rightarrow>
                  if stop then (tr1, Inr acc)
                  else if int (length items) < perpage then (tr1, Inr acc)
                  else paginate_from fetch_fn max_pages perpage stop_condition delay
                         (page + 1) acc tr1)"
  by pat_completeness auto
termination
  by (relation "measure (\<lambda>(fetch_fn, max_pages, perpage, stop_condition, delay, page, all_items, tr).
        nat (max_pages + 1 - page))") auto

declare paginate_from.simps [simp del]

definition paginate ::
  "(int \<Rightarrow> 'e + 'a list) \<Rightarrow> int \<Rightarrow> int \<Rightarrow> ('a \<Rightarrow> bool) option \<Rightarrow> real \<Rightarrow>
   effect list \<times> ('e + 'a list)" where
  "paginate fetch_fn max_pages perpage stop_condition delay =
     paginate_from fetch_fn max_pages perpage stop_condition delay 1 [] []"

text \<open>The pages requested by a walk, in order.\<close>

fun fetches :: "effect list \<Rightarrow> int list" where
  "fetches [] = []"
| "fetches (Sleep # tr) = fetches tr"
| "fetches (Fetch p # tr) = p # fetches tr"

text \<open>An endpoint with 47 items served in pages of 20: pages of sizes 20, 20 and 7, and
  empty pages after them.\<close>

definition three_pages :: "int \<Rightarrow> error + int list" where
  "three_pages page =
     (if page = 1 then Inr [1..20] else if page = 2 then Inr [21..40]
      else if page = 3 then Inr [41..47] else Inr [])"

section \<open>HFCache: the TTL cache\<close>

text \<open>
  A cache key is \<^verbatim>\<open>(namespace, _make_hashable(key))\<close>. Keys are atoms, tuples and lists
  of atoms, and dicts from atoms to values; \<^verbatim>\<open>_make_hashable\<close> turns a list into the tuple
  of its elements and a dict into the tuple of its items sorted (the keys of a dict are
  distinct, so the sort is by key), and leaves every other key as it is. The empty list and
  the empty dict both become the empty tuple.
\<close>

datatype ('a, 'b) pykey = KAtom 'a | KTuple "'a list" | KList "'a list" | KDict "('a \<times> 'b) list"

datatype ('a, 'b) hkey = HAtom 'a | HTuple "'a list" | HItems "('a \<times> 'b) list"

fun make_hashable :: "('a::linorder, 'b) pykey \<Rightarrow> ('a, 'b) hkey" where
  "make_hashable (KList xs) = HTuple xs"
| "make_hashable (KDict items) = (if items = [] then HTuple [] else HItems (sort_key fst items))"
| "make_hashable (KAtom a) = HAtom a"
| "make_hashable (KTuple xs) = HTuple xs"

text \<open>
  What a slot of \<^verbatim>\<open>_store\<close> holds: the marker \<^verbatim>\<open>_NONE_CACHED\<close> or a value that is not
  None. At the caller's level a value is \<open>'v option\<close>, with \<open>None\<close> for Python's None.
  \<^verbatim>\<open>_store\<close> is a dict: an association list in insertion order, which is the order
  \<^verbatim>\<open>min\<close> iterates in. Time is \<^verbatim>\<open>time.monotonic()\<close>, read once by each operation and
  passed in as \<open>now\<close>.
\<close>

datatype 'v slot = NONE_CACHED | Stored 'v

record ('a, 'b, 'v) cache =
  default_ttl :: real
  maxsize :: int
  cache_store :: "((string \<times> ('a, 'b) hkey) \<times> ('v slot \<times> real)) list"
  hits :: nat
  misses :: nat

text \<open>\<^verbatim>\<open>HFCache(ttl, maxsize)\<close>\<close>

definition new_cache :: "real \<Rightarrow> int \<Rightarrow> ('a, 'b, 'v) cache" where
  "new_cache ttl size_bound =
     \<lparr>default_ttl = ttl, maxsize = size_bound, cache_store = [], hits = 0, misses = 0\<rparr>"

definition unwrap :: "'v slot \<Rightarrow> 'v option" where
  "unwrap stored = (case stored of NONE_CACHED \<Rightarrow> None | Stored v \<Rightarrow> Some v)"

definition cache_get ::
  "('a::linorder, 'b, 'v) cache \<Rightarrow> string \<Rightarrow> ('a, 'b) pykey \<Rightarrow> 'v option \<Rightarrow> real \<Rightarrow>
   'v option \<times> ('a, 'b, 'v) cache" where
  "cache_get c ns k dflt now =
     (let cache_key = (ns, make_hashable k) in
      case map_of (cache_store c) cache_key of
        None \<Rightarrow> (dflt, c\<lparr>misses := misses c + 1\<rparr>)
      | Some (stored, expire_at) \<Rightarrow>
          if now > expire_at
          then (dflt, c\<lparr>cache_store := AList.delete cache_key (cache_store c),
                           misses := misses c + 1\<rparr>)
          else (unwrap stored, c\<lparr>hits := hits c + 1\<rparr>))"

text \<open>\<^verbatim>\<open>min(self._store, key=lambda k: self._store[k][1])\<close>: the first key, in the dict's
  order, whose expiry is the smallest.\<close>

fun min_from :: "('x \<times> ('s \<times> real)) \<Rightarrow> ('x \<times> ('s \<times> real)) list \<Rightarrow> 'x" where
  "min_from best [] = fst best"
| "min_from best (e # es) =
     (if snd (snd e) < snd (snd best) then min_from e es else min_from best es)"

definition oldest_key :: "('x \<times> ('s \<times> real)) list \<Rightarrow> error + 'x" where
  "oldest_key al = (case al of [] \<Rightarrow> Inl ValueError | e # es \<Rightarrow> Inr (min_from e es))"

definition cache_set ::
  "('a::linorder, 'b, 'v) cache \<Rightarrow> string \<Rightarrow> ('a, 'b) pykey \<Rightarrow> 'v option \<Rightarrow> real option \<Rightarrow> real \<Rightarrow>
   error + ('a, 'b, 'v) cache" where
  "cache_set c ns k v ttl now =
     (let cache_key = (ns, make_hashable k);
          expire_at = now + (case ttl of Some t \<Rightarrow> t | None \<Rightarrow> default_ttl c);
          stored = (case v of None \<Rightarrow> NONE_CACHED | Some x \<Rightarrow> Stored x)
      in
        if maxsize c \<noteq> 0 \<and> int (length (cache_store c)) \<ge> maxsize c
        then
          (case oldest_key (cache_store c) of
             Inl err \<Rightarrow> Inl err
           | Inr oldest \<Rightarrow>
               Inr (c\<lparr>cache_store :=
                      AList.update cache_key (stored, expire_at)
                        (AList.delete oldest (cache_store c))\<rparr>))
        else Inr (c\<lparr>cache_store := AList.update cache_key (stored, expire_at) (cache_store c)\<rparr>))"

text \<open>A cache bounded to two entries and full: user 1 expiring at 10, user 2 at 20.\<close>

definition full_cache :: "(int, unit, string) cache" where
  "full_cache =
     \<lparr>default_ttl = 300, maxsize = 2,
      cache_store = [((''user'', HAtom 1), (Stored ''one'', 10)),
                     ((''user'', HAtom 2), (Stored ''two'', 20))],
      hits = 0, misses = 0\<rparr>"

section \<open>HFWatcher: one poll of each kind of watch\<close>

subsection \<open>What the API returns, and the events given to the callback\<close>

text \<open>
  A call \<^verbatim>\<open>await self._hf.read(...)\<close> raises (\<open>ReadFails\<close>), returns nothing usable
  (\<open>NoData\<close>: the result is empty or lacks the key asked for), or returns rows; a single
  dict counts as the list of that one row. A field of a row is an option: \<open>None\<close> when the
  field is missing or empty. \<^verbatim>\<open>int(row.get(f) or 0)\<close> is \<open>int_or0\<close>,
  \<^verbatim>\<open>row.get(f, d)\<close> is \<open>get_or d\<close>.
\<close>

datatype 'a reply = ReadFails | NoData | Rows "'a list"

definition int_or0 :: "int option \<Rightarrow> int" where
  "int_or0 v = (case v of None \<Rightarrow> 0 | Some n \<Rightarrow> n)"

definition get_or :: "'a \<Rightarrow> 'a option \<Rightarrow> 'a" where
  "get_or d v = (case v of None \<Rightarrow> d | Some x \<Rightarrow> x)"

record thread_row =
  t_tid :: "int option"
  t_uid :: "string option"
  t_subject :: "string option"
  t_dateline :: "int option"
  t_lastpost :: "int option"
  t_numreplies :: "int option"

record post_row =
  p_pid :: "int option"
  p_tid :: "int option"
  p_uid :: "string option"
  p_subject :: "string option"
  p_dateline :: "int option"
  p_message :: "string option"

datatype from_item = ItemDict "string option" | ItemOther

datatype from_field = FromNothing | FromOne from_item | FromList "from_item list"

record tx_row =
  x_id :: "string option"
  x_amount :: "real option"
  x_dateline :: "int option"
  x_reason :: "string option"
  x_from :: from_field

record me_row =
  m_uid :: "int option"

datatype event =
    ThreadReply int "int option" "string option" string string int
  | NewThread int int string string int
  | UserThread int int string int
  | UserPost int int int string string int
  | KeywordMatch string int int "int option" string string int
  | BytesReceived string real string string int

text \<open>The \<^verbatim>\<open>dateline\<close> entry of an event, and its \<^verbatim>\<open>tid\<close> and \<^verbatim>\<open>pid\<close> entries where it
  has them.\<close>

fun ev_dateline :: "event \<Rightarrow> int" where
  "ev_dateline (ThreadReply tid pid uid subject snippet dateline) = dateline"
| "ev_dateline (NewThread fid tid uid subject dateline) = dateline"
| "ev_dateline (UserThread uid tid subject dateline) = dateline"
| "ev_dateline (UserPost uid tid pid subject snippet dateline) = dateline"
| "ev_dateline (KeywordMatch keyword fid tid pid subject snippet dateline) = dateline"
| "ev_dateline (BytesReceived txid amount reason from_user dateline) = dateline"

fun ev_tid :: "event \<Rightarrow> int option" where
  "ev_tid (ThreadReply tid pid uid subject snippet dateline) = Some tid"
| "ev_tid (NewThread fid tid uid subject dateline) = Some tid"
| "ev_tid (UserThread uid tid subject dateline) = Some tid"
| "ev_tid (UserPost uid tid pid subject snippet dateline) = Some tid"
| "ev_tid (KeywordMatch keyword fid tid pid subject snippet dateline) = Some tid"
| "ev_tid (BytesReceived txid amount reason from_user dateline) = None"

fun ev_pid :: "event \<Rightarrow> int option" where
  "ev_pid (ThreadReply tid pid uid subject snippet dateline) = pid"
| "ev_pid (NewThread fid tid uid subject dateline) = None"
| "ev_pid (UserThread uid tid subject dateline) = None"
| "ev_pid (UserPost uid tid pid subject snippet dateline) = Some pid"
| "ev_pid (KeywordMatch keyword fid tid pid subject snippet dateline) = pid"
| "ev_pid (BytesReceived txid amount reason from_user dateline) = None"

fun is_new_thread :: "event \<Rightarrow> bool" where
  "is_new_thread (NewThread fid tid uid subject dateline) = True"
| "is_new_thread e = False"

fun is_user_thread :: "event \<Rightarrow> bool" where
  "is_user_thread (UserThread uid tid subject dateline) = True"
| "is_user_thread e = False"

fun is_user_post :: "event \<Rightarrow> bool" where
  "is_user_post (UserPost uid tid pid subject snippet dateline) = True"
| "is_user_post e = False"

subsection \<open>Running a poll: state, events, exceptions\<close>

text \<open>
  A poll, and every part of one, takes the watch and returns the watch as it leaves it,
  the events it gave to the callback, in order, and how it ended: \<open>Completed\<close>, or \<open>Raised\<close>
  when an exception left it. The callback is the predicate \<open>cb\<close>: \<open>cb ev\<close> holds when
  \<^verbatim>\<open>await w.callback(ev)\<close> returns, and fails when it raises. An event the callback raised
  on is in the list: the callback was called with it.
\<close>

datatype outcome = Completed | Raised

type_synonym 's run = "'s \<times> event list \<times> outcome"

definition events_of :: "'s run \<Rightarrow> event list" where
  "events_of r = fst (snd r)"

definition outcome_of :: "'s run \<Rightarrow> outcome" where
  "outcome_of r = snd (snd r)"

definition emit :: "(event \<Rightarrow> bool) \<Rightarrow> event \<Rightarrow> 's \<Rightarrow> 's run" where
  "emit cb ev s = (s, [ev], if cb ev then Completed else Raised)"

text \<open>Sequencing: what follows runs only if what came before completed.\<close>

definition and_then :: "'s run \<Rightarrow> ('s \<Rightarrow> 's run) \<Rightarrow> 's run" where
  "and_then r f =
     (case r of
        (s, evs, Raised) \<Rightarrow> (s, evs, Raised)
      | (s, evs, Completed) \<Rightarrow> (case f s of (s', evs', out) \<Rightarrow> (s', evs @ evs', out)))"

text \<open>A \<^verbatim>\<open>for\<close> loop whose body may raise.\<close>

fun for_each :: "('x \<Rightarrow> 's \<Rightarrow> 's run) \<Rightarrow> 'x list \<Rightarrow> 's \<Rightarrow> 's run" where
  "for_each body [] s = (s, [], Completed)"
| "for_each body (x # xs) s = and_then (body x s) (for_each body xs)"

subsection \<open>Seen-sets\<close>

text \<open>
  A seen-set is a Python \<^verbatim>\<open>set\<close>. \<^verbatim>\<open>list(s)\<close> enumerates it in an order the language
  leaves open, so the enumeration is a parameter, \<open>list_of\<close>. The trim
  \<^verbatim>\<open>if len(s) > cap: s = set(list(s)[-keep:])\<close> keeps the last \<open>keep\<close> elements of that
  enumeration.
\<close>

definition last_n :: "nat \<Rightarrow> 'a list \<Rightarrow> 'a list" where
  "last_n n xs = drop (length xs - n) xs"

definition trim :: "('a fset \<Rightarrow> 'a list) \<Rightarrow> nat \<Rightarrow> nat \<Rightarrow> 'a fset \<Rightarrow> 'a fset" where
  "trim list_of cap keep s = (if fcard s > cap then fset_of_list (last_n keep (list_of s)) else s)"

text \<open>
  CPython enumerates a set of integers by hash-table slot. With \<open>m\<close> slots and no two
  elements in one slot, that is the order of \<open>n mod m\<close>.
\<close>

definition slot_order :: "int \<Rightarrow> int fset \<Rightarrow> int list" where
  "slot_order m s = sort_key (\<lambda>n. n mod m) (sorted_list_of_fset s)"

subsection \<open>The thread watch\<close>

record thread_watch =
  tw_tid :: int
  tw_last_post :: int
  tw_seen_pids :: "int fset"

definition thread_post ::
  "(event \<Rightarrow> bool) \<Rightarrow> (string \<Rightarrow> string) \<Rightarrow> string \<Rightarrow> post_row \<Rightarrow> thread_watch \<Rightarrow> thread_watch run" where
  "thread_post cb strip_bbcode subject post w =
     (let pid = int_or0 (p_pid post); dateline = int_or0 (p_dateline post) in
      if dateline \<le> tw_last_post w then (w, [], Completed)
      else if pid |\<in>| tw_seen_pids w then (w, [], Completed)
      else
        emit cb (ThreadReply (tw_tid w) (Some pid) (Some (get_or '''' (p_uid post))) subject
                   (take 200 (strip_bbcode (get_or '''' (p_message post)))) dateline)
          (w\<lparr>tw_seen_pids := finsert pid (tw_seen_pids w)\<rparr>))"

definition poll_thread ::
  "(event \<Rightarrow> bool) \<Rightarrow> (string \<Rightarrow> string) \<Rightarrow> (int fset \<Rightarrow> int list) \<Rightarrow>
   thread_row reply \<Rightarrow> (int \<Rightarrow> post_row reply) \<Rightarrow> thread_watch \<Rightarrow> thread_watch run" where
  "poll_thread cb strip_bbcode list_of meta read_posts w =
     (case meta of
        ReadFails \<Rightarrow> (w, [], Raised)
      | NoData \<Rightarrow> (w, [], Completed)
      | Rows [] \<Rightarrow> (w, [], Completed)
      | Rows (t # _) \<Rightarrow>
          let lastpost = int_or0 (t_lastpost t);
              numreplies = int_or0 (t_numreplies t);
              subject = get_or ''Thread'' (t_subject t)
          in
            if tw_last_post w = 0 then (w\<lparr>tw_last_post := lastpost\<rparr>, [], Completed)
            else if lastpost \<le> tw_last_post w then (w, [], Completed)
            else
              let last_page = max 1 ((numreplies + 1 + 9) div 10) in
              case read_posts last_page of
                ReadFails \<Rightarrow> (w, [], Raised)
              | NoData \<Rightarrow>
                  and_then
                    (emit cb (ThreadReply (tw_tid w) None None subject '''' lastpost) w)
                    (\<lambda>w1. (w1\<lparr>tw_last_post := lastpost\<rparr>, [], Completed))
              | Rows posts \<Rightarrow>
                  and_then
                    (for_each (thread_post cb strip_bbcode subject)
                       (sort_key (\<lambda>p. int_or0 (p_dateline p)) posts) w)
                    (\<lambda>w1. (w1\<lparr>tw_last_post := lastpost,
                                tw_seen_pids := trim list_of 500 250 (tw_seen_pids w1)\<rparr>,
                            [], Completed)))"

subsection \<open>The forum watch\<close>

record forum_watch =
  fw_fid :: int
  fw_seen_tids :: "int fset"
  fw_initialized :: bool

definition seed_tid :: "thread_row \<Rightarrow> int fset \<Rightarrow> int fset" where
  "seed_tid t seen = (let tid = int_or0 (t_tid t) in if tid \<noteq> 0 then finsert tid seen else seen)"

definition forum_thread :: "(event \<Rightarrow> bool) \<Rightarrow> thread_row \<Rightarrow> forum_watch \<Rightarrow> forum_watch run" where
  "forum_thread cb t w =
     (let tid = int_or0 (t_tid t); dateline = int_or0 (t_dateline t) in
      if tid = 0 \<or> tid |\<in>| fw_seen_tids w then (w, [], Completed)
      else
        emit cb (NewThread (fw_fid w) tid (get_or '''' (t_uid t)) (get_or '''' (t_subject t)) dateline)
          (w\<lparr>fw_seen_tids := finsert tid (fw_seen_tids w)\<rparr>))"

definition poll_forum ::
  "(event \<Rightarrow> bool) \<Rightarrow> (int fset \<Rightarrow> int list) \<Rightarrow> thread_row reply \<Rightarrow> forum_watch \<Rightarrow> forum_watch run" where
  "poll_forum cb list_of data w =
     (case data of
        ReadFails \<Rightarrow> (w, [], Raised)
      | NoData \<Rightarrow> (w, [], Completed)
      | Rows threads \<Rightarrow>
          if \<not> fw_initialized w
          then (w\<lparr>fw_seen_tids := fold seed_tid threads (fw_seen_tids w), fw_initialized := True\<rparr>,
                [], Completed)
          else
            and_then
              (for_each (forum_thread cb) (sort_key (\<lambda>x. int_or0 (t_dateline x)) threads) w)
              (\<lambda>w1. (w1\<lparr>fw_seen_tids := trim list_of 1000 500 (fw_seen_tids w1)\<rparr>, [], Completed)))"

subsection \<open>The user watch\<close>

record user_watch =
  uw_uid :: int
  uw_mode :: string
  uw_seen_tids :: "int fset"
  uw_seen_pids :: "int fset"
  uw_initialized :: bool

definition user_thread :: "(event \<Rightarrow> bool) \<Rightarrow> thread_row \<Rightarrow> user_watch \<Rightarrow> user_watch run" where
  "user_thread cb t w =
     (let tid = int_or0 (t_tid t); dateline = int_or0 (t_dateline t) in
      if tid = 0 \<or> tid |\<in>| uw_seen_tids w then (w, [], Completed)
      else
        emit cb (UserThread (uw_uid w) tid (get_or '''' (t_subject t)) dateline)
          (w\<lparr>uw_seen_tids := finsert tid (uw_seen_tids w)\<rparr>))"

definition user_post ::
  "(event \<Rightarrow> bool) \<Rightarrow> (string \<Rightarrow> string) \<Rightarrow> post_row \<Rightarrow> user_watch \<Rightarrow> user_watch run" where
  "user_post cb strip_bbcode p w =
     (let pid = int_or0 (p_pid p); dateline = int_or0 (p_dateline p) in
      if pid = 0 then (w, [], Completed)
      else if \<not> uw_initialized w
      then (w\<lparr>uw_seen_pids := finsert pid (uw_seen_pids w)\<rparr>, [], Completed)
      else if pid |\<in>| uw_seen_pids w then (w, [], Completed)
      else
        emit cb (UserPost (uw_uid w) (int_or0 (p_tid p)) pid (get_or '''' (p_subject p))
                   (take 200 (strip_bbcode (get_or '''' (p_message p)))) dateline)
          (w\<lparr>uw_seen_pids := finsert pid (uw_seen_pids w)\<rparr>))"

text \<open>The two sub-checks of \<^verbatim>\<open>_poll_user\<close>: the user's threads, then (in mode
  \<^verbatim>\<open>all\<close>) the user's posts.\<close>

definition user_threads_check ::
  "(event \<Rightarrow> bool) \<Rightarrow> thread_row reply \<Rightarrow> user_watch \<Rightarrow> user_watch run" where
  "user_threads_check cb thread_data w =
     (case thread_data of
        ReadFails \<Rightarrow> (w, [], Raised)
      | NoData \<Rightarrow> (w, [], Completed)
      | Rows rows \<Rightarrow>
          if \<not> uw_initialized w
          then (w\<lparr>uw_seen_tids := fold seed_tid rows (uw_seen_tids w)\<rparr>, [], Completed)
          else for_each (user_thread cb) (sort_key (\<lambda>x. int_or0 (t_dateline x)) rows) w)"

definition user_posts_check ::
  "(event \<Rightarrow> bool) \<Rightarrow> (string \<Rightarrow> string) \<Rightarrow> post_row reply \<Rightarrow> user_watch \<Rightarrow> user_watch run" where
  "user_posts_check cb strip_bbcode post_data w =
     (if uw_mode w = ''all''
      then
        (case post_data of
           ReadFails \<Rightarrow> (w, [], Raised)
         | NoData \<Rightarrow> (w, [], Completed)
         | Rows posts \<Rightarrow>
             for_each (user_post cb strip_bbcode) (sort_key (\<lambda>p. int_or0 (p_dateline p)) posts) w)
      else (w, [], Completed))"

definition poll_user ::
  "(event \<Rightarrow> bool) \<Rightarrow> (string \<Rightarrow> string) \<Rightarrow> (int fset \<Rightarrow> int list) \<Rightarrow>
   thread_row reply \<Rightarrow> post_row reply \<Rightarrow> user_watch \<Rightarrow> user_watch run" where
  "poll_user cb strip_bbcode list_of thread_data post_data w =
     and_then (user_threads_check cb thread_data w)
       (\<lambda>w1. and_then (user_posts_check cb strip_bbcode post_data w1)
          (\<lambda>w2. (w2\<lparr>uw_initialized := True,
                      uw_seen_tids := trim list_of 500 250 (uw_seen_tids w2),
                      uw_seen_pids := trim list_of 500 250 (uw_seen_pids w2)\<rparr>,
                  [], Completed)))"

subsection \<open>The keyword watch\<close>

text \<open>
  \<open>kw_keyword\<close> is \<^verbatim>\<open>w.pattern.pattern\<close>; the compiled pattern is the predicate \<open>matches\<close>
  (\<^verbatim>\<open>w.pattern.search(s)\<close> finds a match). \<open>now\<close> is \<^verbatim>\<open>time.time()\<close>.
\<close>

record keyword_watch =
  kw_keyword :: string
  kw_fids :: "int list"
  kw_seen_tids :: "int fset"
  kw_seen_pids :: "int fset"

definition keyword_post ::
  "(event \<Rightarrow> bool) \<Rightarrow> (string \<Rightarrow> bool) \<Rightarrow> (string \<Rightarrow> string) \<Rightarrow> int \<Rightarrow> int \<Rightarrow> string \<Rightarrow>
   post_row \<Rightarrow> keyword_watch \<Rightarrow> keyword_watch run" where
  "keyword_post cb matches strip_bbcode fid tid subject post w =
     (let pid = int_or0 (p_pid post); message = get_or '''' (p_message post) in
      if pid |\<in>| kw_seen_pids w then (w, [], Completed)
      else if matches message
      then
        emit cb (KeywordMatch (kw_keyword w) fid tid (Some pid) subject
                   (take 200 (strip_bbcode message)) (int_or0 (p_dateline post)))
          (w\<lparr>kw_seen_pids := finsert pid (kw_seen_pids w)\<rparr>)
      else (w, [], Completed))"

definition keyword_thread ::
  "(event \<Rightarrow> bool) \<Rightarrow> (string \<Rightarrow> bool) \<Rightarrow> (string \<Rightarrow> string) \<Rightarrow> real \<Rightarrow> (int \<Rightarrow> post_row reply) \<Rightarrow>
   int \<Rightarrow> thread_row \<Rightarrow> keyword_watch \<Rightarrow> keyword_watch run" where
  "keyword_thread cb matches strip_bbcode now read_posts fid t w =
     (let tid = int_or0 (t_tid t);
          subject = get_or '''' (t_subject t);
          dateline = int_or0 (t_dateline t)
      in
        if tid = 0 \<or> tid |\<in>| kw_seen_tids w then (w, [], Completed)
        else if matches subject
        then
          emit cb (KeywordMatch (kw_keyword w) fid tid None subject subject dateline)
            (w\<lparr>kw_seen_tids := finsert tid (kw_seen_tids w)\<rparr>)
        else if now - real_of_int dateline > 3600
        then (w\<lparr>kw_seen_tids := finsert tid (kw_seen_tids w)\<rparr>, [], Completed)
        else
          (case read_posts tid of
             ReadFails \<Rightarrow> (w, [], Raised)
           | NoData \<Rightarrow> (w, [], Completed)
           | Rows posts \<Rightarrow>
               and_then (for_each (keyword_post cb matches strip_bbcode fid tid subject) posts w)
                 (\<lambda>w1. (w1\<lparr>kw_seen_tids := finsert tid (kw_seen_tids w1)\<rparr>, [], Completed))))"

definition keyword_forum ::
  "(event \<Rightarrow> bool) \<Rightarrow> (string \<Rightarrow> bool) \<Rightarrow> (string \<Rightarrow> string) \<Rightarrow> real \<Rightarrow>
   (int \<Rightarrow> thread_row reply) \<Rightarrow> (int \<Rightarrow> post_row reply) \<Rightarrow> int \<Rightarrow> keyword_watch \<Rightarrow> keyword_watch run" where
  "keyword_forum cb matches strip_bbcode now read_threads read_posts fid w =
     (case read_threads fid of
        ReadFails \<Rightarrow> (w, [], Raised)
      | NoData \<Rightarrow> (w, [], Completed)
      | Rows threads \<Rightarrow>
          for_each (keyword_thread cb matches strip_bbcode now read_posts fid) threads w)"

definition poll_keyword ::
  "(event \<Rightarrow> bool) \<Rightarrow> (string \<Rightarrow> bool) \<Rightarrow> (string \<Rightarrow> string) \<Rightarrow> real \<Rightarrow> (int fset \<Rightarrow> int list) \<Rightarrow>
   (int \<Rightarrow> thread_row reply) \<Rightarrow> (int \<Rightarrow> post_row reply) \<Rightarrow> keyword_watch \<Rightarrow> keyword_watch run" where
  "poll_keyword cb matches strip_bbcode now list_of read_threads read_posts w =
     (if kw_fids w = [] then (w, [], Completed)
      else
        and_then
          (for_each (keyword_forum cb matches strip_bbcode now read_threads read_posts) (kw_fids w) w)
          (\<lambda>w1. (w1\<lparr>kw_seen_tids := trim list_of 2000 1000 (kw_seen_tids w1),
                      kw_seen_pids := trim list_of 2000 1000 (kw_seen_pids w1)\<rparr>,
                  [], Completed)))"

subsection \<open>The bytes watch\<close>

record bytes_watch =
  bw_seen_ids :: "string fset"
  bw_initialized :: bool
  bw_my_uid :: "int option"

definition from_user :: "from_field \<Rightarrow> string" where
  "from_user f =
     (case f of
        FromNothing \<Rightarrow> ''''
      | FromOne (ItemDict u) \<Rightarrow> get_or '''' u
      | FromOne ItemOther \<Rightarrow> ''''
      | FromList [] \<Rightarrow> ''''
      | FromList (ItemDict u # _) \<Rightarrow> get_or '''' u
      | FromList (ItemOther # _) \<Rightarrow> '''')"

definition seed_txid :: "tx_row \<Rightarrow> string fset \<Rightarrow> string fset" where
  "seed_txid tx seen = (let txid = get_or '''' (x_id tx) in if txid \<noteq> '''' then finsert txid seen else seen)"

definition bytes_tx :: "(event \<Rightarrow> bool) \<Rightarrow> tx_row \<Rightarrow> bytes_watch \<Rightarrow> bytes_watch run" where
  "bytes_tx cb tx w =
     (let txid = get_or '''' (x_id tx) in
      if txid = '''' \<or> txid |\<in>| bw_seen_ids w then (w, [], Completed)
      else
        emit cb (BytesReceived txid (get_or 0 (x_amount tx)) (get_or '''' (x_reason tx))
                   (from_user (x_from tx)) (int_or0 (x_dateline tx)))
          (w\<lparr>bw_seen_ids := finsert txid (bw_seen_ids w)\<rparr>))"

definition bytes_fetch ::
  "(event \<Rightarrow> bool) \<Rightarrow> (int \<Rightarrow> tx_row reply) \<Rightarrow> int \<Rightarrow> bytes_watch \<Rightarrow> bytes_watch run" where
  "bytes_fetch cb read_bytes uid w =
     (case read_bytes uid of
        ReadFails \<Rightarrow> (w, [], Raised)
      | NoData \<Rightarrow> (w, [], Completed)
      | Rows txs \<Rightarrow>
          if \<not> bw_initialized w
          then (w\<lparr>bw_seen_ids := fold seed_txid txs (bw_seen_ids w), bw_initialized := True\<rparr>,
                [], Completed)
          else for_each (bytes_tx cb) (sort_key (\<lambda>x. int_or0 (x_dateline x)) txs) w)"

definition poll_bytes ::
  "(event \<Rightarrow> bool) \<Rightarrow> me_row reply \<Rightarrow> (int \<Rightarrow> tx_row reply) \<Rightarrow> bytes_watch \<Rightarrow> bytes_watch run" where
  "poll_bytes cb me read_bytes w =
     (case bw_my_uid w of
        Some uid \<Rightarrow> bytes_fetch cb read_bytes uid w
      | None \<Rightarrow>
          (case me of
             ReadFails \<Rightarrow> (w, [], Raised)
           | NoData \<Rightarrow> (w, [], Completed)
           | Rows rows \<Rightarrow>
               let uid_val = (case rows of [] \<Rightarrow> 0 | me_data # _ \<Rightarrow> int_or0 (m_uid me_data)) in
               if uid_val = 0 then (w, [], Completed)
               else bytes_fetch cb read_bytes uid_val (w\<lparr>bw_my_uid := Some uid_val\<rparr>)))"

subsection \<open>Example polls\<close>

text \<open>A callback that never raises, and a thread row with the four fields the forum and
  keyword watches ask for.\<close>

definition cb_ok :: "event \<Rightarrow> bool" where
  "cb_ok ev = True"

definition thread_of :: "int \<Rightarrow> string \<Rightarrow> int \<Rightarrow> thread_row" where
  "thread_of tid subject dateline =
     \<lparr>t_tid = Some tid, t_uid = Some ''761578'', t_subject = Some subject,
      t_dateline = Some dateline, t_lastpost = None, t_numreplies = None\<rparr>"

text \<open>
  A keyword watch on forum 25 with the pattern \<^verbatim>\<open>^bytes$\<close>, at its first cycle, at time
  250. The forum lists thread 11 (dateline 200) before thread 12 (dateline 100); both
  subjects match.
\<close>

definition kw_watch :: keyword_watch where
  "kw_watch = \<lparr>kw_keyword = ''^bytes$'', kw_fids = [25], kw_seen_tids = {||}, kw_seen_pids = {||}\<rparr>"

definition kw_matches :: "string \<Rightarrow> bool" where
  "kw_matches s = (s = ''bytes'')"

definition kw_two_threads :: "int \<Rightarrow> thread_row reply" where
  "kw_two_threads fid = Rows [thread_of 11 ''bytes'' 200, thread_of 12 ''bytes'' 100]"

text \<open>
  The same watch when the forum lists the one thread 13, ten seconds old, whose subject
  does not match and whose only post, 77, does not match either.
\<close>

definition kw_one_thread :: "int \<Rightarrow> thread_row reply" where
  "kw_one_thread fid = Rows [thread_of 13 ''hello'' 240]"

definition kw_one_post :: "int \<Rightarrow> post_row reply" where
  "kw_one_post tid =
     Rows [\<lparr>p_pid = Some 77, p_tid = None, p_uid = None, p_subject = None,
            p_dateline = Some 245, p_message = Some ''nothing here''\<rparr>]"

text \<open>A callback that raises on every event.\<close>

definition cb_fail :: "event \<Rightarrow> bool" where
  "cb_fail ev = False"

text \<open>
  A forum watch on forum 25 before its first poll, the five threads the forum holds then,
  the watch after it has seeded them, and the forum's list once a sixth thread has appeared.
\<close>

definition forum_new :: forum_watch where
  "forum_new = \<lparr>fw_fid = 25, fw_seen_tids = {||}, fw_initialized = False\<rparr>"

definition five_threads :: "thread_row list" where
  "five_threads =
     [thread_of 5 ''e'' 50, thread_of 4 ''d'' 40, thread_of 3 ''c'' 30, thread_of 2 ''b'' 20,
      thread_of 1 ''a'' 10]"

definition forum_seeded :: forum_watch where
  "forum_seeded = \<lparr>fw_fid = 25, fw_seen_tids = {|1, 2, 3, 4, 5|}, fw_initialized = True\<rparr>"

definition six_threads :: "thread_row list" where
  "six_threads = thread_of 6 ''f'' 60 # five_threads"

text \<open>
  A thread watch that has emitted the replies 1 to 500, one poll after another, and so
  holds 500 seen post ids in a hash table of 2048 slots; the thread's metadata once a new
  reply has moved \<^verbatim>\<open>lastpost\<close> to 2000; and the page of posts then: the new reply, with
  post id 4096.
\<close>

definition thread_watch_500 :: thread_watch where
  "thread_watch_500 = \<lparr>tw_tid = 6083735, tw_last_post = 1000, tw_seen_pids = fset_of_list [1..500]\<rparr>"

definition thread_meta :: "thread_row reply" where
  "thread_meta =
     Rows [\<lparr>t_tid = Some 6083735, t_uid = None, t_subject = Some ''Thread'', t_dateline = None,
            t_lastpost = Some 2000, t_numreplies = Some 600\<rparr>]"

definition new_reply :: "int \<Rightarrow> post_row reply" where
  "new_reply page =
     Rows [\<lparr>p_pid = Some 4096, p_tid = None, p_uid = Some ''761578'', p_subject = None,
            p_dateline = Some 2000, p_message = Some ''new reply''\<rparr>]"

text \<open>
  A user watch in mode \<^verbatim>\<open>all\<close> after its first poll. The user's thread list then shows the
  new thread 21 (dateline 300), and the user's post list the new post 31 (dateline 100).
\<close>

definition user_seeded :: user_watch where
  "user_seeded =
     \<lparr>uw_uid = 761578, uw_mode = ''all'', uw_seen_tids = {||}, uw_seen_pids = {||},
      uw_initialized = True\<rparr>"

definition user_new_thread :: "thread_row reply" where
  "user_new_thread = Rows [thread_of 21 ''new thread'' 300]"

definition user_new_post :: "post_row reply" where
  "user_new_post =
     Rows [\<lparr>p_pid = Some 31, p_tid = Some 7, p_uid = None, p_subject = Some ''re'',
            p_dateline = Some 100, p_message = Some ''hi''\<rparr>]"

section \<open>Facts about the event store\<close>

lemma digit_val_digit_char: "d < 10 \<Longrightarrow> digit_val (digit_char d) = d"
proof -
  assume "d < 10"
  then have "d \<in> {0, 1, 2, 3, 4, 5, 6, 7, 8, 9}"
    by auto
  then show ?thesis
    by (auto simp: digit_val_def digit_char_def)
qed

lemma digit_char_not_minus: "d < 10 \<Longrightarrow> digit_char d \<noteq> CHR ''-''"
proof -
  assume "d < 10"
  then have "d \<in> {0, 1, 2, 3, 4, 5, 6, 7, 8, 9}"
    by auto
  then show ?thesis
    by (auto simp: digit_char_def)
qed

lemma nat_of_digits_snoc: "nat_of_digits (ds @ [c]) = 10 * nat_of_digits ds + digit_val c"
  by (simp add: nat_of_digits_def)

lemma nat_of_digits_str_nat: "nat_of_digits (str_nat n) = n"
proof (induction n rule: str_nat.induct)
  case (1 n)
  show ?case
  proof (cases "n < 10")
    case True
    then show ?thesis
      by (subst str_nat.simps) (simp add: nat_of_digits_def digit_val_digit_char)
  next
    case False
    with "1.IH" have "nat_of_digits (str_nat (n div 10)) = n div 10"
      by simp
    with False show ?thesis
      by (subst str_nat.simps) (simp add: nat_of_digits_snoc digit_val_digit_char)
  qed
qed

lemma str_nat_inj: "str_nat m = str_nat n \<Longrightarrow> m = n"
  using nat_of_digits_str_nat by metis

lemma str_nat_no_minus: "CHR ''-'' \<notin> set (str_nat n)"
proof (induction n rule: str_nat.induct)
  case (1 n)
  show ?case
  proof (cases "n < 10")
    case True
    then show ?thesis
      using digit_char_not_minus [of n] by (subst str_nat.simps) auto
  next
    case False
    with "1.IH" have "CHR ''-'' \<notin> set (str_nat (n div 10))"
      by simp
    moreover have "digit_char (n mod 10) \<noteq> CHR ''-''"
      by (rule digit_char_not_minus) simp
    ultimately show ?thesis
      using False by (subst str_nat.simps) auto
  qed
qed

lemma py_str_int_inj: "(py_str (PyInt m) = py_str (PyInt n)) = (m = n)"
proof
  assume eq: "py_str (PyInt m) = py_str (PyInt n)"
  have minus: "\<And>a b. CHR ''-'' # str_nat a \<noteq> str_nat b"
    using str_nat_no_minus by (metis list.set_intros(1))
  show "m = n"
  proof (cases "m < 0")
    case True
    show ?thesis
    proof (cases "n < 0")
      case nn: True
      with True eq have "str_nat (nat (- m)) = str_nat (nat (- n))"
        by simp
      then have "nat (- m) = nat (- n)"
        by (rule str_nat_inj)
      with True nn show ?thesis by simp
    next
      case False
      with True eq minus [of "nat (- m)" "nat n"] show ?thesis by simp
    qed
  next
    case mp: False
    show ?thesis
    proof (cases "n < 0")
      case True
      with mp eq minus [of "nat (- n)" "nat m"] show ?thesis by simp
    next
      case False
      with mp eq have "str_nat (nat m) = str_nat (nat n)"
        by simp
      then have "nat m = nat n"
        by (rule str_nat_inj)
      with mp False show ?thesis by simp
    qed
  qed
qed simp

lemma select_one_None_iff: "select_one t ns k e = None \<longleftrightarrow> \<not> list_ex (pk_match ns k e) t"
  by (auto simp add: select_one_def find_None_iff list_ex_iff)

lemma has_iff: "has s ns k e \<longleftrightarrow> list_ex (pk_match ns (py_str k) (py_str e)) (conn s)"
  by (simp add: has_def select_one_None_iff)


lemma add_if_new_seen: "has s ns k e \<Longrightarrow> add_if_new s ns k e now = Inr (False, s)"
  by (auto simp add: add_if_new_def has_def split: option.splits)




lemma has_coerced: "has s ns k e = has s ns k (PyStr (py_str e))"
  by (simp add: has_def)

lemma has_after_add: "py_str e' = py_str e \<Longrightarrow> has (add s ns k e now) ns k e'"
  by (simp add: has_iff add_def commit_def insert_or_ignore_def pk_match_def)

lemma has_add_other: "py_str e' \<noteq> py_str e \<Longrightarrow> has (add s ns k e now) ns k e' = has s ns k e'"
  by (auto simp add: has_iff add_def commit_def insert_or_ignore_def pk_match_def)

lemma insert_or_ignore_keeps: "list_ex P t \<Longrightarrow> list_ex P (insert_or_ignore r t)"
  by (simp add: insert_or_ignore_def)

lemma insert_or_ignore_has:
  "list_ex (pk_match (namespace r) (key r) (event_id r)) (insert_or_ignore r t)"
  by (simp add: insert_or_ignore_def pk_match_def)

lemma insert_many_keeps: "list_ex P t \<Longrightarrow> list_ex P (insert_many rs t)"
  by (induction rs arbitrary: t) (simp_all add: insert_or_ignore_keeps)

lemma insert_many_has:
  "r \<in> set rs \<Longrightarrow> list_ex (pk_match (namespace r) (key r) (event_id r)) (insert_many rs t)"
proof (induction rs arbitrary: t)
  case Nil
  then show ?case by simp
next
  case (Cons a rs)
  show ?case
  proof (cases "r = a")
    case True
    then show ?thesis
      by (simp add: insert_many_keeps insert_or_ignore_has)
  next
    case False
    with Cons show ?thesis by simp
  qed
qed

lemma has_after_add_many:
  "e \<in> set ids \<Longrightarrow> has (snd (add_many s ns k ids now)) ns k e"
proof -
  assume e: "e \<in> set ids"
  then have ne: "ids \<noteq> []" by auto
  let ?row = "\<lambda>eid. \<lparr>namespace = ns, key = py_str k, event_id = py_str eid, seen_at = now\<rparr>"
  from e have "?row e \<in> set (map ?row ids)"
    by simp
  from insert_many_has [OF this, of "conn s"]
  have "list_ex (pk_match ns (py_str k) (py_str e)) (insert_many (map ?row ids) (conn s))"
    by simp
  with ne show ?thesis
    by (simp add: add_many_def Let_def has_iff commit_def)
qed

lemma filter_new_within:
  assumes "2 + length ids \<le> max_vars"
  shows "filter_new max_vars s ns k ids = Inr (filter (\<lambda>e. \<not> has s ns k e) ids)"
proof (cases "ids = []")
  case True
  then show ?thesis by (simp add: filter_new_def)
next
  case False
  have "\<And>e. e \<in> set ids \<Longrightarrow>
      (py_str e \<notin> set (map event_id (filter (\<lambda>r. namespace r = ns \<and> key r = py_str k \<and>
          event_id r \<in> set (map py_str ids)) (conn s))))
       = (\<not> has s ns k e)"
    by (force simp: has_iff list_ex_iff pk_match_def)
  with False assms show ?thesis
    by (simp add: filter_new_def Let_def cong: filter_cong)
qed

lemma filter_new_beyond:
  assumes "ids \<noteq> []" and "max_vars < 2 + length ids"
  shows "filter_new max_vars s ns k ids = Inl OperationalError"
  using assms by (simp add: filter_new_def Let_def)

lemma has_add_iff:
  "has (add s ns k e now) ns k e' = (py_str e' = py_str e \<or> has s ns k e')"
  by (cases "py_str e' = py_str e") (simp_all add: has_after_add has_add_other)

lemma add_stored:
  "list_ex (\<lambda>r. namespace r = ns \<and> key r = py_str k \<and> event_id r = py_str e)
     (disk (add s ns k e now))"
  by (auto simp add: add_def commit_def insert_or_ignore_def list_ex_iff pk_match_def)

lemma add_many_coerced:
  "add_many s ns k (map (\<lambda>x. PyStr (py_str x)) ids) now = add_many s ns k ids now"
  by (simp add: add_many_def comp_def)

lemma filter_new_coerced:
  assumes "2 + length ids \<le> max_vars"
  shows "filter_new max_vars s ns k (map (\<lambda>x. PyStr (py_str x)) ids)
         = Inr (map (\<lambda>x. PyStr (py_str x)) (filter (\<lambda>e. \<not> has s ns k e) ids))"
proof -
  from assms have "2 + length (map (\<lambda>x. PyStr (py_str x)) ids) \<le> max_vars"
    by simp
  then have "filter_new max_vars s ns k (map (\<lambda>x. PyStr (py_str x)) ids)
      = Inr (filter (\<lambda>e. \<not> has s ns k e) (map (\<lambda>x. PyStr (py_str x)) ids))"
    by (rule filter_new_within)
  then show ?thesis
    by (simp add: filter_map comp_def has_def)
qed

lemma filter_new_after_add:
  assumes "2 + length ids \<le> max_vars"
  shows "filter_new max_vars (add s ns k e now) ns k ids
         = Inr (filter (\<lambda>x. py_str x \<noteq> py_str e \<and> \<not> has s ns k x) ids)"
  by (simp add: filter_new_within [OF assms] has_add_iff)

section \<open>Claims about the event store\<close>



text \<open>
  C3, as the claim states it, fails on a long list. With SQLite's bound of 32766
  parameters and a list of 32765 ids the statement has 32767 parameters:
  \<^verbatim>\<open>filter_new\<close> raises \<^verbatim>\<open>sqlite3.OperationalError\<close> and returns no list, although none of
  the ids is seen and the claim gives the whole list as the result.
\<close>

theorem filter_new_raises_on_long_list:
  "length (map PyInt [1..32765]) = 32765
   \<and> filter_new 32766 (open_store ''events.db'' []) ''forum_threads'' (PyStr ''fid_25'')
        (map PyInt [1..32765]) = Inl OperationalError"
  by (simp add: filter_new_def Let_def)

text \<open>
  C3 as amended. For a list of ids whose length plus two is within SQLite's bound on the
  parameters of a statement, \<^verbatim>\<open>filter_new(namespace, key, ids)\<close> returns \<open>ids\<close> without the
  ids for which \<^verbatim>\<open>has(namespace, key, id)\<close> is true on the same store, the others kept in
  their original order: a subsequence of \<open>ids\<close>. For a longer list it raises
  \<^verbatim>\<open>sqlite3.OperationalError\<close>.
\<close>

theorem filter_new_removes_seen:
  assumes "4 \<le> max_vars"
  shows "(2 + length ids \<le> max_vars \<longrightarrow>
           filter_new max_vars s ns k ids = Inr (filter (\<lambda>e. \<not> has s ns k e) ids)
           \<and> subseq (filter (\<lambda>e. \<not> has s ns k e) ids) ids)
       \<and> (max_vars < 2 + length ids \<longrightarrow> filter_new max_vars s ns k ids = Inl OperationalError)"
proof -
  have "max_vars < 2 + length ids \<Longrightarrow> ids \<noteq> []"
    using assms by auto
  then show ?thesis
    by (auto simp: filter_new_within filter_new_beyond)
qed

theorem filter_new_removes_seen_witness:
  "(4::nat) \<le> 32766
   \<and> 2 + length [PyInt 100, PyInt 200, PyInt 59852445] \<le> (32766::nat)
   \<and> filter_new 32766
        (add (open_store ''events.db'' []) ''thread_replies'' (PyStr ''tid_6083735'') (PyInt 59852445) 100)
        ''thread_replies'' (PyStr ''tid_6083735'') [PyInt 100, PyInt 200, PyInt 59852445]
      = Inr [PyInt 100, PyInt 200]
   \<and> (4::nat) \<le> 4
   \<and> (4::nat) < 2 + length [PyInt 100, PyInt 200, PyInt 59852445]
   \<and> filter_new 4
        (add (open_store ''events.db'' []) ''thread_replies'' (PyStr ''tid_6083735'') (PyInt 59852445) 100)
        ''thread_replies'' (PyStr ''tid_6083735'') [PyInt 100, PyInt 200, PyInt 59852445]
      = Inl OperationalError"
proof -
  let ?s = "add (open_store ''events.db'' []) ''thread_replies'' (PyStr ''tid_6083735'')
              (PyInt 59852445) 100"
  let ?ids = "[PyInt 100, PyInt 200, PyInt 59852445]"
  have big: "(4::nat) \<le> 32766" and small: "(4::nat) \<le> 4"
    by simp_all
  have fits: "2 + length ?ids \<le> (32766::nat)" and beyond: "(4::nat) < 2 + length ?ids"
    by simp_all
  have seen: "has ?s ''thread_replies'' (PyStr ''tid_6083735'') (PyInt 59852445)"
    by (simp add: has_after_add)
  have other: "py_str (PyInt 100) \<noteq> py_str (PyInt 59852445)"
    "py_str (PyInt 200) \<noteq> py_str (PyInt 59852445)"
    by (simp_all add: py_str_int_inj del: py_str.simps)
  have empty: "\<And>e. \<not> has (open_store ''events.db'' []) ''thread_replies'' (PyStr ''tid_6083735'') e"
    by (simp add: has_iff open_store_def)
  have unseen: "\<not> has ?s ''thread_replies'' (PyStr ''tid_6083735'') (PyInt 100)"
    "\<not> has ?s ''thread_replies'' (PyStr ''tid_6083735'') (PyInt 200)"
    using has_add_other [OF other(1)] has_add_other [OF other(2)] empty by blast+
  from filter_new_removes_seen [OF big, of ?ids ?s "''thread_replies''" "PyStr ''tid_6083735''"] fits
  have "filter_new 32766 ?s ''thread_replies'' (PyStr ''tid_6083735'') ?ids
      = Inr (filter (\<lambda>e. \<not> has ?s ''thread_replies'' (PyStr ''tid_6083735'') e) ?ids)"
    by blast
  with seen unseen have 1: "filter_new 32766 ?s ''thread_replies'' (PyStr ''tid_6083735'') ?ids
      = Inr [PyInt 100, PyInt 200]"
    by simp
  from filter_new_removes_seen [OF small, of ?ids ?s "''thread_replies''" "PyStr ''tid_6083735''"] beyond
  have 2: "filter_new 4 ?s ''thread_replies'' (PyStr ''tid_6083735'') ?ids = Inl OperationalError"
    by blast
  from big fits 1 small beyond 2 show ?thesis by blast
qed

text \<open>
  C10, as the claim states it, fails on a long list. After \<^verbatim>\<open>add(ns, k, 42)\<close>, with
  SQLite's bound of 32766 parameters and the 32765 ids 1, ..., 32765, of which 42 is one,
  \<^verbatim>\<open>filter_new\<close> does not remove 42 from the list: it raises
  \<^verbatim>\<open>sqlite3.OperationalError\<close> and returns no list.
\<close>

theorem filter_new_raises_with_seen_id:
  "PyInt 42 \<in> set (map PyInt [1..32765])
   \<and> has (add (open_store ''events.db'' []) ''thread_replies'' (PyStr ''tid_6083735'') (PyInt 42) 100)
        ''thread_replies'' (PyStr ''tid_6083735'') (PyInt 42)
   \<and> filter_new 32766
        (add (open_store ''events.db'' []) ''thread_replies'' (PyStr ''tid_6083735'') (PyInt 42) 100)
        ''thread_replies'' (PyStr ''tid_6083735'') (map PyInt [1..32765]) = Inl OperationalError"
proof -
  have "PyInt 42 \<in> set (map PyInt [1..32765])"
    by simp
  moreover have "has (add (open_store ''events.db'' []) ''thread_replies'' (PyStr ''tid_6083735'')
      (PyInt 42) 100) ''thread_replies'' (PyStr ''tid_6083735'') (PyInt 42)"
    by (simp add: has_after_add)
  moreover have "filter_new 32766
        (add (open_store ''events.db'' []) ''thread_replies'' (PyStr ''tid_6083735'') (PyInt 42) 100)
        ''thread_replies'' (PyStr ''tid_6083735'') (map PyInt [1..32765]) = Inl OperationalError"
    by (rule filter_new_beyond) simp_all
  ultimately show ?thesis by blast
qed

text \<open>
  C10 as amended. The string form of an id is the id itself for a string and the decimal
  numeral for an integer (42 is \<^verbatim>\<open>42\<close>, -7 is \<^verbatim>\<open>-7\<close>), different for different integers.
  Every operation of the store applies it to the event id before it stores or queries: an
  operation called with an id and with the string form of that id does the same, and the
  row \<^verbatim>\<open>add\<close> leaves committed holds the string form. For an integer \<open>n\<close>: after
  \<^verbatim>\<open>add(ns, k, n)\<close>, \<^verbatim>\<open>has(ns, k, str(n))\<close> is true, \<^verbatim>\<open>has\<close> of another integer is as it was
  before, \<^verbatim>\<open>add_if_new(ns, k, str(n))\<close> returns False and leaves the store as it is, and,
  for a list of ids whose length plus two is within SQLite's bound on the parameters of a
  statement, \<^verbatim>\<open>filter_new\<close> returns the list without \<open>n\<close> and without \<open>str(n)\<close>, whether the
  id was recorded as the integer or as the string. \<^verbatim>\<open>add_many\<close> records every id of its
  list under its string form.
\<close>

theorem event_id_coerced_to_str:
  assumes "4 \<le> max_vars" and "2 + length ids \<le> max_vars"
  shows "py_str (PyStr str) = str
   \<and> (py_str (PyInt m) = py_str (PyInt n)) = (m = n)
   \<and> py_str (PyInt 42) = ''42'' \<and> py_str (PyInt (- 7)) = ''-7'' \<and> py_str (PyInt 0) = ''0''
   \<and> has s ns k e = has s ns k (PyStr (py_str e))
   \<and> add s ns k e now = add s ns k (PyStr (py_str e)) now
   \<and> add_if_new s ns k e now = add_if_new s ns k (PyStr (py_str e)) now
   \<and> add_many s ns k ids now = add_many s ns k (map (\<lambda>x. PyStr (py_str x)) ids) now
   \<and> filter_new max_vars s ns k (map (\<lambda>x. PyStr (py_str x)) ids)
        = Inr (map (\<lambda>x. PyStr (py_str x)) (filter (\<lambda>e. \<not> has s ns k e) ids))
   \<and> list_ex (\<lambda>r. namespace r = ns \<and> key r = py_str k \<and> event_id r = py_str e)
        (disk (add s ns k e now))
   \<and> list_all (\<lambda>x. has (snd (add_many s ns k ids now)) ns k (PyStr (py_str x))) ids
   \<and> has (add s ns k (PyInt n) now) ns k (PyStr (py_str (PyInt n)))
   \<and> has (add s ns k (PyStr (py_str (PyInt n))) now) ns k (PyInt n)
   \<and> has (add s ns k (PyInt 42) now) ns k (PyStr ''42'')
   \<and> has (add s ns k (PyInt n) now) ns k (PyInt m) = (m = n \<or> has s ns k (PyInt m))
   \<and> add_if_new (add s ns k (PyInt n) now) ns k (PyStr (py_str (PyInt n))) later
        = Inr (False, add s ns k (PyInt n) now)
   \<and> filter_new max_vars (add s ns k (PyInt n) now) ns k ids
        = Inr (filter (\<lambda>x. py_str x \<noteq> py_str (PyInt n) \<and> \<not> has s ns k x) ids)
   \<and> filter_new max_vars (add s ns k (PyStr (py_str (PyInt n))) now) ns k ids
        = Inr (filter (\<lambda>x. py_str x \<noteq> py_str (PyInt n) \<and> \<not> has s ns k x) ids)
   \<and> PyInt n \<notin> set (filter (\<lambda>x. py_str x \<noteq> py_str (PyInt n) \<and> \<not> has s ns k x) ids)
   \<and> PyStr (py_str (PyInt n)) \<notin> set (filter (\<lambda>x. py_str x \<noteq> py_str (PyInt n) \<and> \<not> has s ns k x) ids)"
proof -
  have 1: "py_str (PyStr str) = str"
    by simp
  have 2: "(py_str (PyInt m) = py_str (PyInt n)) = (m = n)"
    by (rule py_str_int_inj)
  have 3: "py_str (PyInt 42) = ''42''" "py_str (PyInt (- 7)) = ''-7''" "py_str (PyInt 0) = ''0''"
    by (simp_all add: str_nat.simps digit_char_def)
  have 4: "has s ns k e = has s ns k (PyStr (py_str e))"
    by (rule has_coerced)
  have 5: "add s ns k e now = add s ns k (PyStr (py_str e)) now"
    by (simp add: add_def)
  have 6: "add_if_new s ns k e now = add_if_new s ns k (PyStr (py_str e)) now"
    by (simp add: add_if_new_def cong: option.case_cong)
  have 7: "add_many s ns k ids now = add_many s ns k (map (\<lambda>x. PyStr (py_str x)) ids) now"
    by (simp add: add_many_coerced)
  have 8: "filter_new max_vars s ns k (map (\<lambda>x. PyStr (py_str x)) ids)
        = Inr (map (\<lambda>x. PyStr (py_str x)) (filter (\<lambda>e. \<not> has s ns k e) ids))"
    using assms(2) by (rule filter_new_coerced)
  have 9: "list_ex (\<lambda>r. namespace r = ns \<and> key r = py_str k \<and> event_id r = py_str e)
        (disk (add s ns k e now))"
    by (rule add_stored)
  have "\<And>x. x \<in> set ids \<Longrightarrow> has (snd (add_many s ns k ids now)) ns k (PyStr (py_str x))"
    using has_after_add_many has_coerced by blast
  then have 10: "list_all (\<lambda>x. has (snd (add_many s ns k ids now)) ns k (PyStr (py_str x))) ids"
    by (simp add: list_all_iff)
  have 11: "has (add s ns k (PyInt n) now) ns k (PyStr (py_str (PyInt n)))"
    by (rule has_after_add) simp
  have 12: "has (add s ns k (PyStr (py_str (PyInt n))) now) ns k (PyInt n)"
    by (rule has_after_add) simp
  have 13: "has (add s ns k (PyInt 42) now) ns k (PyStr ''42'')"
    by (rule has_after_add) (simp only: 3 py_str.simps(2))
  have 14: "has (add s ns k (PyInt n) now) ns k (PyInt m) = (m = n \<or> has s ns k (PyInt m))"
    by (simp only: has_add_iff py_str_int_inj)
  have 15: "add_if_new (add s ns k (PyInt n) now) ns k (PyStr (py_str (PyInt n))) later
        = Inr (False, add s ns k (PyInt n) now)"
    using 11 by (rule add_if_new_seen)
  have 16: "filter_new max_vars (add s ns k (PyInt n) now) ns k ids
        = Inr (filter (\<lambda>x. py_str x \<noteq> py_str (PyInt n) \<and> \<not> has s ns k x) ids)"
    using assms(2) by (rule filter_new_after_add)
  have "filter_new max_vars (add s ns k (PyStr (py_str (PyInt n))) now) ns k ids
        = Inr (filter (\<lambda>x. py_str x \<noteq> py_str (PyStr (py_str (PyInt n))) \<and> \<not> has s ns k x) ids)"
    using assms(2) by (rule filter_new_after_add)
  then have 17: "filter_new max_vars (add s ns k (PyStr (py_str (PyInt n))) now) ns k ids
        = Inr (filter (\<lambda>x. py_str x \<noteq> py_str (PyInt n) \<and> \<not> has s ns k x) ids)"
    by (simp only: py_str.simps(2))
  have 18: "PyInt n \<notin> set (filter (\<lambda>x. py_str x \<noteq> py_str (PyInt n) \<and> \<not> has s ns k x) ids)"
    by simp
  have 19: "PyStr (py_str (PyInt n)) \<notin> set (filter (\<lambda>x. py_str x \<noteq> py_str (PyInt n) \<and> \<not> has s ns k x) ids)"
    by simp
  from 1 2 3 4 5 6 7 8 9 10 11 12 13 14 15 16 17 18 19 show ?thesis
    by (intro conjI)
qed

theorem event_id_coerced_to_str_witness:
  "(4::nat) \<le> 32766
   \<and> 2 + length [PyInt 100, PyStr ''59852445'', PyInt 59852445, PyInt 200] \<le> (32766::nat)
   \<and> py_str (PyInt 59852445) = ''59852445''
   \<and> filter_new 32766
        (add (open_store ''events.db'' []) ''thread_replies'' (PyStr ''tid_6083735'') (PyInt 59852445) 100)
        ''thread_replies'' (PyStr ''tid_6083735'')
        [PyInt 100, PyStr ''59852445'', PyInt 59852445, PyInt 200]
      = Inr [PyInt 100, PyInt 200]
   \<and> filter_new 32766
        (add (open_store ''events.db'' []) ''thread_replies'' (PyStr ''tid_6083735'')
           (PyStr ''59852445'') 100)
        ''thread_replies'' (PyStr ''tid_6083735'')
        [PyInt 100, PyStr ''59852445'', PyInt 59852445, PyInt 200]
      = Inr [PyInt 100, PyInt 200]"
proof -
  let ?ids = "[PyInt 100, PyStr ''59852445'', PyInt 59852445, PyInt 200]"
  let ?s = "open_store ''events.db'' []"
  have big: "(4::nat) \<le> 32766" and fits: "2 + length ?ids \<le> (32766::nat)"
    by simp_all
  have str: "py_str (PyInt 59852445) = ''59852445''" "py_str (PyInt 100) = ''100''"
    "py_str (PyInt 200) = ''200''"
    by (simp_all add: str_nat.simps digit_char_def)
  have empty: "\<And>e. \<not> has ?s ''thread_replies'' (PyStr ''tid_6083735'') e"
    by (simp add: has_iff open_store_def)
  note inst = event_id_coerced_to_str [OF big fits, where s = ?s and ns = "''thread_replies''"
      and k = "PyStr ''tid_6083735''" and n = 59852445 and now = 100]
  have keep: "filter (\<lambda>x. py_str x \<noteq> py_str (PyInt 59852445) \<and>
        \<not> has ?s ''thread_replies'' (PyStr ''tid_6083735'') x) ?ids = [PyInt 100, PyInt 200]"
    by (simp add: empty str del: py_str.simps(1))
  from inst have "filter_new 32766
        (add ?s ''thread_replies'' (PyStr ''tid_6083735'') (PyInt 59852445) 100)
        ''thread_replies'' (PyStr ''tid_6083735'') ?ids
      = Inr (filter (\<lambda>x. py_str x \<noteq> py_str (PyInt 59852445) \<and>
        \<not> has ?s ''thread_replies'' (PyStr ''tid_6083735'') x) ?ids)"
    by blast
  then have a: "filter_new 32766
        (add ?s ''thread_replies'' (PyStr ''tid_6083735'') (PyInt 59852445) 100)
        ''thread_replies'' (PyStr ''tid_6083735'') ?ids = Inr [PyInt 100, PyInt 200]"
    by (simp only: keep)
  from inst have "filter_new 32766
        (add ?s ''thread_replies'' (PyStr ''tid_6083735'') (PyStr (py_str (PyInt 59852445))) 100)
        ''thread_replies'' (PyStr ''tid_6083735'') ?ids
      = Inr (filter (\<lambda>x. py_str x \<noteq> py_str (PyInt 59852445) \<and>
        \<not> has ?s ''thread_replies'' (PyStr ''tid_6083735'') x) ?ids)"
    by blast
  then have b: "filter_new 32766
        (add ?s ''thread_replies'' (PyStr ''tid_6083735'') (PyStr ''59852445'') 100)
        ''thread_replies'' (PyStr ''tid_6083735'') ?ids = Inr [PyInt 100, PyInt 200]"
    by (simp only: str(1) keep [unfolded str(1)])
  from big fits str(1) a b show ?thesis
    by (intro conjI)
qed

section \<open>Facts about the page walker\<close>

lemma collect_eq:
  "collect sc items acc =
     (acc @ takeWhile (\<lambda>x. \<not> stops sc x) items, list_ex (stops sc) items)"
  by (induction items arbitrary: acc) auto

lemma collect_no_stop: "\<not> list_ex (stops sc) items \<Longrightarrow> collect sc items acc = (acc @ items, False)"
  by (simp add: collect_eq list_ex_iff)

lemma no_stop_None: "\<not> list_ex (stops None) xs"
  by (simp add: list_ex_iff stops_def)



lemma fetches_append: "fetches (xs @ ys) = fetches xs @ fetches ys"
  by (induction xs rule: fetches.induct) auto

lemma walk_past_max:
  "max_pages < page \<Longrightarrow>
   paginate_from fetch_fn max_pages perpage sc delay page acc tr = (tr, Inr acc)"
  by (simp add: paginate_from.simps)

lemma walk_empty_page:
  "page \<le> max_pages \<Longrightarrow> fetch_fn page = Inr [] \<Longrightarrow>
   snd (paginate_from fetch_fn max_pages perpage sc delay page acc tr) = Inr acc \<and>
   fetches (fst (paginate_from fetch_fn max_pages perpage sc delay page acc tr)) = fetches tr @ [page]"
  by (subst (1 2) paginate_from.simps) (simp add: fetches_append Let_def)

lemma walk_partial_page:
  "page \<le> max_pages \<Longrightarrow> fetch_fn page = Inr items \<Longrightarrow> items \<noteq> [] \<Longrightarrow>
   \<not> list_ex (stops sc) items \<Longrightarrow> int (length items) < perpage \<Longrightarrow>
   snd (paginate_from fetch_fn max_pages perpage sc delay page acc tr) = Inr (acc @ items) \<and>
   fetches (fst (paginate_from fetch_fn max_pages perpage sc delay page acc tr)) = fetches tr @ [page]"
  by (subst (1 2) paginate_from.simps) (simp add: fetches_append Let_def collect_no_stop)

lemma walk_full_page:
  "page \<le> max_pages \<Longrightarrow> fetch_fn page = Inr items \<Longrightarrow> items \<noteq> [] \<Longrightarrow>
   \<not> list_ex (stops sc) items \<Longrightarrow> \<not> int (length items) < perpage \<Longrightarrow>
   paginate_from fetch_fn max_pages perpage sc delay page acc tr =
   paginate_from fetch_fn max_pages perpage sc delay (page + 1) (acc @ items)
     ((if page > 1 \<and> delay > 0 then tr @ [Sleep] else tr) @ [Fetch page])"
  by (subst paginate_from.simps) (simp add: Let_def collect_no_stop)

lemma walk_fetches:
  "\<exists>k. page - 1 \<le> k \<and> k \<le> max (page - 1) max_pages \<and>
     fetches (fst (paginate_from fetch_fn max_pages perpage sc delay page acc tr)) = fetches tr @ [page..k]"
proof (induction fetch_fn max_pages perpage sc delay page acc tr rule: paginate_from.induct)
  case (1 fetch_fn max_pages perpage sc delay page acc tr)
  let ?tr1 = "(if page > 1 \<and> delay > 0 then tr @ [Sleep] else tr) @ [Fetch page]"
  let ?W = "paginate_from fetch_fn max_pages perpage sc delay page acc tr"
  have here: "\<And>r. ?W = (?tr1, r) \<Longrightarrow> page \<le> max_pages \<Longrightarrow> ?case"
    by (rule exI[of _ page]) (simp add: fetches_append)
  show ?case
  proof (cases "page > max_pages")
    case True
    then show ?thesis
      by (intro exI[of _ "page - 1"]) (simp add: paginate_from.simps)
  next
    case le: False
    show ?thesis
    proof (cases "fetch_fn page")
      case (Inl err)
      with le show ?thesis by (intro here[of "Inl err"]) (simp_all add: paginate_from.simps Let_def)
    next
      case (Inr items)
      obtain acc' stop where c: "collect sc items acc = (acc', stop)" by (cases "collect sc items acc")
      show ?thesis
      proof (cases "items = [] \<or> stop \<or> int (length items) < perpage")
        case True
        with le Inr c have "\<exists>r. ?W = (?tr1, r)"
          by (subst paginate_from.simps) (auto simp: Let_def)
        with le here show ?thesis by auto
      next
        case False
        with le Inr c have W: "?W = paginate_from fetch_fn max_pages perpage sc delay (page + 1) acc' ?tr1"
          by (subst paginate_from.simps) (auto simp: Let_def)
        from False le Inr c have "\<exists>k. page + 1 - 1 \<le> k \<and> k \<le> max (page + 1 - 1) max_pages \<and>
           fetches (fst (paginate_from fetch_fn max_pages perpage sc delay (page + 1) acc' ?tr1))
            = fetches ?tr1 @ [page + 1..k]"
          by (intro "1.IH"[of ?tr1 items acc' stop]) auto
        then obtain k where k: "page \<le> k" "k \<le> max page max_pages"
          "fetches (fst (paginate_from fetch_fn max_pages perpage sc delay (page + 1) acc' ?tr1))
            = fetches ?tr1 @ [page + 1..k]" by auto
        have "[page..k] = page # [page + 1..k]" using k(1) by (simp add: upto_rec1)
        with k le show ?thesis unfolding W
          by (intro exI[of _ k]) (simp add: fetches_append)
      qed
    qed
  qed
qed

lemma three_pages_walk:
  assumes "length p1 = 20" "length p2 = 20" "length p3 = 7"
    "fetch_fn 1 = Inr p1" "fetch_fn 2 = Inr p2" "fetch_fn 3 = Inr p3" "3 \<le> max_pages"
  shows "snd (paginate fetch_fn max_pages 20 None delay) = Inr (p1 @ p2 @ p3) \<and>
         fetches (fst (paginate fetch_fn max_pages 20 None delay)) = [1, 2, 3]"
proof -
  have ne: "p1 \<noteq> []" "p2 \<noteq> []" "p3 \<noteq> []" using assms by auto
  have s1: "paginate fetch_fn max_pages 20 None delay =
     paginate_from fetch_fn max_pages 20 None delay 2 p1 [Fetch 1]"
    unfolding paginate_def using assms ne walk_full_page[of 1 max_pages fetch_fn p1 None 20 delay "[]" "[]"]
    by (simp add: no_stop_None)
  have s2: "paginate_from fetch_fn max_pages 20 None delay 2 p1 [Fetch 1] =
     paginate_from fetch_fn max_pages 20 None delay 3 (p1 @ p2) ((if delay > 0 then [Fetch 1, Sleep] else [Fetch 1]) @ [Fetch 2])"
    using assms ne walk_full_page[of 2 max_pages fetch_fn p2 None 20 delay p1 "[Fetch 1]"]
    by (simp add: no_stop_None)
  show ?thesis unfolding s1 s2
    using assms ne walk_partial_page[of 3 max_pages fetch_fn p3 None 20 delay "p1 @ p2" "(if delay > 0 then [Fetch 1, Sleep] else [Fetch 1]) @ [Fetch 2]"]
    by (simp add: fetches_append no_stop_None)
qed

text \<open>
  C4. The walk always returns. From any page within \<^verbatim>\<open>max_pages\<close>: an empty page ends
  the walk with that fetch as the last one; so does a page with fewer items than
  \<^verbatim>\<open>perpage\<close> (none of them stopping the walk), its items appended; past \<^verbatim>\<open>max_pages\<close>
  nothing is fetched; and the pages a walk requests are 1, 2, ..., k for some k that is at
  most \<^verbatim>\<open>max_pages\<close>. For pages of sizes 20, 20 and 7 with page size 20 the walk returns
  the 47 items in order and requests exactly the pages 1, 2 and 3.
\<close>

theorem paginate_stops_at_last_page:
  "(page \<le> max_pages \<and> fetch_fn page = Inr [] \<longrightarrow>
      snd (paginate_from fetch_fn max_pages perpage sc delay page acc tr) = Inr acc \<and>
      fetches (fst (paginate_from fetch_fn max_pages perpage sc delay page acc tr))
        = fetches tr @ [page])
   \<and> (page2 \<le> max_pages \<and> fetch_fn page2 = Inr items \<and> items \<noteq> [] \<and>
       \<not> list_ex (stops sc) items \<and> int (length items) < perpage \<longrightarrow>
      snd (paginate_from fetch_fn max_pages perpage sc delay page2 acc tr) = Inr (acc @ items) \<and>
      fetches (fst (paginate_from fetch_fn max_pages perpage sc delay page2 acc tr))
        = fetches tr @ [page2])
   \<and> (max_pages < page3 \<longrightarrow>
      paginate_from fetch_fn max_pages perpage sc delay page3 acc tr = (tr, Inr acc))
   \<and> (\<exists>k. 0 \<le> k \<and> k \<le> max 0 max_pages \<and>
      fetches (fst (paginate fetch_fn max_pages perpage sc delay)) = [1..k])
   \<and> (length p1 = 20 \<and> length p2 = 20 \<and> length p3 = 7 \<and> fetch_fn 1 = Inr p1 \<and>
       fetch_fn 2 = Inr p2 \<and> fetch_fn 3 = Inr p3 \<and> 3 \<le> max_pages \<longrightarrow>
      snd (paginate fetch_fn max_pages 20 None delay) = Inr (p1 @ p2 @ p3) \<and>
      fetches (fst (paginate fetch_fn max_pages 20 None delay)) = [1, 2, 3])"
proof -
  have "\<exists>k. 0 \<le> k \<and> k \<le> max 0 max_pages \<and>
      fetches (fst (paginate fetch_fn max_pages perpage sc delay)) = [1..k]"
    using walk_fetches [of 1 max_pages fetch_fn perpage sc delay "[]" "[]"]
    by (simp add: paginate_def)
  then show ?thesis
    using walk_empty_page [of page max_pages fetch_fn perpage sc delay acc tr]
      walk_partial_page [of page2 max_pages fetch_fn items sc perpage delay acc tr]
      walk_past_max [of max_pages page3 fetch_fn perpage sc delay acc tr]
      three_pages_walk [of p1 p2 p3 fetch_fn max_pages delay]
    by blast
qed

theorem paginate_stops_at_last_page_witness:
  "snd (paginate three_pages 50 20 None 0.3) = Inr [1..47]
   \<and> fetches (fst (paginate three_pages 50 20 None 0.3)) = [1, 2, 3]
   \<and> three_pages 4 = Inr []
   \<and> snd (paginate_from three_pages 50 20 None 0.3 4 [0] [Fetch 7]) = Inr [0]
   \<and> fetches (fst (paginate_from three_pages 50 20 None 0.3 4 [0] [Fetch 7])) = [7, 4]
   \<and> three_pages 3 = Inr [41..47]
   \<and> snd (paginate_from three_pages 50 20 None 0.3 3 [0] [Fetch 7]) = Inr (0 # [41..47])
   \<and> fetches (fst (paginate_from three_pages 50 20 None 0.3 3 [0] [Fetch 7])) = [7, 3]
   \<and> paginate_from three_pages 50 20 None 0.3 51 [0] [Fetch 7] = ([Fetch 7], Inr [0])"
  using paginate_stops_at_last_page [of 4 50 three_pages 20 None "0.3" "[0]" "[Fetch 7]" 3
      "[41..47]" 51 "[1..20]" "[21..40]" "[41..47]"]
  by (simp add: three_pages_def stops_def upto_rec1 [of 1 20] upto_rec1 [of 1 47])

section \<open>Facts and claims about the TTL cache\<close>

lemma cache_set_entry:
  assumes "cache_set c ns k v (Some t) now0 = Inr c1"
  shows "map_of (cache_store c1) (ns, make_hashable k)
         = Some (case v of None \<Rightarrow> NONE_CACHED | Some x \<Rightarrow> Stored x, now0 + t)"
  using assms
  by (auto simp: cache_set_def Let_def update_conv' split: if_splits sum.splits)

lemma cache_set_returns:
  assumes "0 \<le> maxsize c"
  shows "\<exists>c1. cache_set c ns k v ttl now = Inr c1"
proof (cases "cache_store c")
  case Nil
  with assms show ?thesis by (auto simp: cache_set_def Let_def)
next
  case (Cons e es)
  then show ?thesis by (auto simp: cache_set_def Let_def oldest_key_def)
qed

text \<open>
  C5. On a cache whose size bound is not negative, \<^verbatim>\<open>set(ns, k, None, ttl=t)\<close> at time
  \<open>now0\<close> returns, and on the cache it leaves a \<^verbatim>\<open>get(ns, k, default=D)\<close> at a time up to
  \<open>now0 + t\<close> returns None, whatever \<open>D\<close> is, and a \<^verbatim>\<open>get\<close> at a later time returns \<open>D\<close>.
\<close>

theorem cached_none_is_not_a_miss:
  assumes "0 \<le> maxsize c"
  shows "\<exists>c1. cache_set c ns k None (Some t) now0 = Inr c1 \<and>
           (\<forall>now1 D. (now1 \<le> now0 + t \<longrightarrow> fst (cache_get c1 ns k D now1) = None) \<and>
                      (now0 + t < now1 \<longrightarrow> fst (cache_get c1 ns k D now1) = D))"
proof -
  from assms obtain c1 where c1: "cache_set c ns k None (Some t) now0 = Inr c1"
    using cache_set_returns by blast
  then have "map_of (cache_store c1) (ns, make_hashable k) = Some (NONE_CACHED, now0 + t)"
    by (simp add: cache_set_entry)
  then have "\<forall>now1 D. (now1 \<le> now0 + t \<longrightarrow> fst (cache_get c1 ns k D now1) = None) \<and>
                      (now0 + t < now1 \<longrightarrow> fst (cache_get c1 ns k D now1) = D)"
    by (simp add: cache_get_def unwrap_def)
  with c1 show ?thesis by blast
qed

theorem cached_none_is_not_a_miss_witness:
  "0 \<le> maxsize (new_cache 300 0 :: (int, unit, string) cache)
   \<and> (\<exists>c1. cache_set (new_cache 300 0 :: (int, unit, string) cache) ''user'' (KAtom 761578)
               None (Some 60) 1000 = Inr c1
        \<and> fst (cache_get c1 ''user'' (KAtom 761578) (Some ''miss'') 1000) = None
        \<and> fst (cache_get c1 ''user'' (KAtom 761578) (Some ''miss'') 1061) = Some ''miss'')"
proof -
  have size_bound: "0 \<le> maxsize (new_cache 300 0 :: (int, unit, string) cache)"
    by (simp add: new_cache_def)
  from cached_none_is_not_a_miss [OF size_bound, of "''user''" "KAtom 761578" 60 1000]
  obtain c1 where
    "cache_set (new_cache 300 0 :: (int, unit, string) cache) ''user'' (KAtom 761578)
       None (Some 60) 1000 = Inr c1"
    and gets: "\<forall>now1 D. (now1 \<le> 1000 + 60 \<longrightarrow> fst (cache_get c1 ''user'' (KAtom 761578) D now1) = None) \<and>
                 (1000 + 60 < now1 \<longrightarrow> fst (cache_get c1 ''user'' (KAtom 761578) D now1) = D)"
    by blast
  moreover from gets have "fst (cache_get c1 ''user'' (KAtom 761578) (Some ''miss'') 1000) = None"
    by simp
  moreover from gets have "fst (cache_get c1 ''user'' (KAtom 761578) (Some ''miss'') 1061) = Some ''miss''"
    by simp
  ultimately show ?thesis using size_bound by blast
qed

text \<open>
  C8. The code at a failing input. The cache is bounded to two entries and holds two,
  for users 1 and 2. Setting user 2 again overwrites a key that is present, so the count
  would stay at two; the code evicts all the same, and the entry of user 1, the one with the
  nearest expiry, is gone.
\<close>

theorem overwrite_at_capacity_evicts:
  "map_of (cache_store full_cache) (''user'', HAtom 1) = Some (Stored ''one'', 10)
   \<and> map_of (cache_store full_cache) (''user'', make_hashable (KAtom 2)) = Some (Stored ''two'', 20)
   \<and> int (length (cache_store full_cache)) = maxsize full_cache
   \<and> cache_set full_cache ''user'' (KAtom 2) (Some ''again'') (Some 60) 5
      = Inr (full_cache\<lparr>cache_store := [((''user'', HAtom 2), (Stored ''again'', 65))]\<rparr>)"
  by (simp add: cache_set_def full_cache_def oldest_key_def)

section \<open>Facts about polls\<close>

lemma and_then_Completed:
  "and_then (s, evs, Completed) f = (fst (f s), evs @ events_of (f s), outcome_of (f s))"
  by (simp add: and_then_def events_of_def outcome_of_def split: prod.splits)

lemma and_then_Raised: "and_then (s, evs, Raised) f = (s, evs, Raised)"
  by (simp add: and_then_def)

lemma and_then_skip: "and_then (s, [], Completed) f = f s"
  by (simp add: and_then_def split: prod.splits)

lemma events_of_simp: "events_of (s, evs, out) = evs"
  by (simp add: events_of_def)

lemma outcome_of_simp: "outcome_of (s, evs, out) = out"
  by (simp add: outcome_of_def)

lemma events_and_then:
  "events_of (and_then r f) =
     (if outcome_of r = Raised then events_of r else events_of r @ events_of (f (fst r)))"
  by (cases r; cases "outcome_of r")
     (auto simp: and_then_def events_of_def outcome_of_def split: prod.splits outcome.splits)

lemma events_emit: "events_of (emit cb ev s) = [ev]"
  by (simp add: emit_def events_of_def)

lemma for_each_event_from:
  "e \<in> set (events_of (for_each body xs s)) \<Longrightarrow>
   \<exists>x\<in>set xs. \<exists>s'. e \<in> set (events_of (body x s'))"
proof (induction xs arbitrary: s)
  case Nil
  then show ?case by (simp add: events_of_def)
next
  case (Cons x xs)
  from Cons.prems have "e \<in> set (events_of (body x s)) \<or>
     e \<in> set (events_of (for_each body xs (fst (body x s))))"
    by (auto simp: events_and_then split: if_splits)
  then show ?case
  proof
    assume "e \<in> set (events_of (body x s))"
    then show ?thesis by auto
  next
    assume "e \<in> set (events_of (for_each body xs (fst (body x s))))"
    then have "\<exists>x\<in>set xs. \<exists>s'. e \<in> set (events_of (body x s'))"
      by (rule Cons.IH)
    then show ?thesis by auto
  qed
qed

lemma for_each_dateline:
  assumes "\<And>x s e. x \<in> set xs \<Longrightarrow> e \<in> set (events_of (body x s)) \<Longrightarrow> ev_dateline e = k x"
    and "e \<in> set (events_of (for_each body xs s))"
  shows "\<exists>x\<in>set xs. ev_dateline e = k x"
  using for_each_event_from [OF assms(2)] assms(1) by blast

lemma for_each_sorted:
  assumes "\<And>x s e. x \<in> set xs \<Longrightarrow> e \<in> set (events_of (body x s)) \<Longrightarrow> ev_dateline e = k x"
    and "sorted (map k xs)"
  shows "sorted (map ev_dateline (events_of (for_each body xs s)))"
  using assms
proof (induction xs arbitrary: s)
  case Nil
  then show ?case by (simp add: events_of_def)
next
  case (Cons x xs)
  have here: "\<And>e. e \<in> set (events_of (body x s)) \<Longrightarrow> ev_dateline e = k x"
    using Cons.prems(1) by auto
  then have s1: "sorted (map ev_dateline (events_of (body x s)))"
    by (simp add: sorted_wrt_iff_nth_less nth_mem)
  have rest: "\<And>s'. sorted (map ev_dateline (events_of (for_each body xs s')))"
    using Cons.IH Cons.prems by auto
  have later: "\<And>s' e. e \<in> set (events_of (for_each body xs s')) \<Longrightarrow> k x \<le> ev_dateline e"
  proof -
    fix s' e assume "e \<in> set (events_of (for_each body xs s'))"
    then obtain y where "y \<in> set xs" "ev_dateline e = k y"
      using for_each_dateline[where xs=xs and body=body and k=k and e=e and s=s'] Cons.prems(1) by auto
    then show "k x \<le> ev_dateline e" using Cons.prems(2) by auto
  qed
  show ?case
    using s1 rest here later
    by (auto simp: events_and_then sorted_append)
qed

lemma sorted_for_each_sort_key:
  assumes "\<And>x s e. e \<in> set (events_of (body x s)) \<Longrightarrow> ev_dateline e = k x"
  shows "sorted (map ev_dateline (events_of (for_each body (sort_key k xs) s)))"
  by (rule for_each_sorted [where k = k]) (use assms in auto)

lemma thread_post_dateline:
  "e \<in> set (events_of (thread_post cb strip subject post w)) \<Longrightarrow>
   ev_dateline e = int_or0 (p_dateline post)"
  by (auto simp: thread_post_def Let_def events_of_def emit_def split: if_splits)

lemma forum_thread_dateline:
  "e \<in> set (events_of (forum_thread cb t w)) \<Longrightarrow> ev_dateline e = int_or0 (t_dateline t)"
  by (auto simp: forum_thread_def Let_def events_of_def emit_def split: if_splits)

lemma user_thread_event:
  "e \<in> set (events_of (user_thread cb t w)) \<Longrightarrow>
   ev_dateline e = int_or0 (t_dateline t) \<and> is_user_thread e \<and> \<not> is_user_post e"
  by (auto simp: user_thread_def Let_def events_of_def emit_def split: if_splits)

lemma user_post_event:
  "e \<in> set (events_of (user_post cb strip p w)) \<Longrightarrow>
   ev_dateline e = int_or0 (p_dateline p) \<and> is_user_post e \<and> \<not> is_user_thread e"
  by (auto simp: user_post_def Let_def events_of_def emit_def split: if_splits)

lemma bytes_tx_dateline:
  "e \<in> set (events_of (bytes_tx cb tx w)) \<Longrightarrow> ev_dateline e = int_or0 (x_dateline tx)"
  by (auto simp: bytes_tx_def Let_def events_of_def emit_def split: if_splits)

lemma poll_thread_sorted:
  "sorted (map ev_dateline (events_of (poll_thread cb strip list_of meta read_posts w)))"
proof -
  have loop: "\<And>subject posts. sorted (map ev_dateline (events_of
      (for_each (thread_post cb strip subject) (sort_key (\<lambda>p. int_or0 (p_dateline p)) posts) w)))"
    by (rule sorted_for_each_sort_key) (rule thread_post_dateline)
  show ?thesis
    using loop
    by (auto simp: poll_thread_def Let_def events_and_then events_of_simp events_emit
        split: reply.splits list.splits)
qed

lemma poll_forum_sorted:
  "sorted (map ev_dateline (events_of (poll_forum cb list_of data w)))"
proof -
  have loop: "\<And>threads. sorted (map ev_dateline (events_of
      (for_each (forum_thread cb) (sort_key (\<lambda>x. int_or0 (t_dateline x)) threads) w)))"
    by (rule sorted_for_each_sort_key) (rule forum_thread_dateline)
  show ?thesis
    using loop
    by (auto simp: poll_forum_def events_and_then events_of_simp split: reply.splits)
qed

lemma bytes_fetch_sorted:
  "sorted (map ev_dateline (events_of (bytes_fetch cb read_bytes uid w)))"
proof -
  have loop: "\<And>txs. sorted (map ev_dateline (events_of
      (for_each (bytes_tx cb) (sort_key (\<lambda>x. int_or0 (x_dateline x)) txs) w)))"
    by (rule sorted_for_each_sort_key) (rule bytes_tx_dateline)
  show ?thesis
    using loop
    by (auto simp: bytes_fetch_def events_of_simp split: reply.splits)
qed

lemma poll_bytes_sorted:
  "sorted (map ev_dateline (events_of (poll_bytes cb me read_bytes w)))"
  by (auto simp: poll_bytes_def Let_def events_of_simp bytes_fetch_sorted split: option.splits reply.splits)

lemma user_threads_check_events:
  "sorted (map ev_dateline (events_of (user_threads_check cb thread_data w))) \<and>
   (\<forall>e\<in>set (events_of (user_threads_check cb thread_data w)). is_user_thread e \<and> \<not> is_user_post e)"
proof -
  have loop: "\<And>rows. sorted (map ev_dateline (events_of
      (for_each (user_thread cb) (sort_key (\<lambda>x. int_or0 (t_dateline x)) rows) w)))"
    by (rule sorted_for_each_sort_key) (simp add: user_thread_event)
  have kind: "\<And>rows e. e \<in> set (events_of (for_each (user_thread cb) rows w)) \<Longrightarrow>
      is_user_thread e \<and> \<not> is_user_post e"
  proof -
    fix rows e assume a: "e \<in> set (events_of (for_each (user_thread cb) rows w))"
    from for_each_event_from [OF a] obtain x s' where "e \<in> set (events_of (user_thread cb x s'))"
      by blast
    then show "is_user_thread e \<and> \<not> is_user_post e"
      by (simp add: user_thread_event)
  qed
  show ?thesis
    using loop kind
    by (auto simp: user_threads_check_def events_of_simp split: reply.splits)
qed

lemma user_posts_check_events:
  "sorted (map ev_dateline (events_of (user_posts_check cb strip post_data w))) \<and>
   (\<forall>e\<in>set (events_of (user_posts_check cb strip post_data w)). is_user_post e \<and> \<not> is_user_thread e)"
proof -
  have loop: "\<And>posts. sorted (map ev_dateline (events_of
      (for_each (user_post cb strip) (sort_key (\<lambda>p. int_or0 (p_dateline p)) posts) w)))"
    by (rule sorted_for_each_sort_key) (simp add: user_post_event)
  have kind: "\<And>posts e. e \<in> set (events_of (for_each (user_post cb strip) posts w)) \<Longrightarrow>
      is_user_post e \<and> \<not> is_user_thread e"
  proof -
    fix posts e assume a: "e \<in> set (events_of (for_each (user_post cb strip) posts w))"
    from for_each_event_from [OF a] obtain x s' where "e \<in> set (events_of (user_post cb strip x s'))"
      by blast
    then show "is_user_post e \<and> \<not> is_user_thread e"
      by (simp add: user_post_event)
  qed
  show ?thesis
    using loop kind
    by (auto simp: user_posts_check_def events_of_simp split: reply.splits)
qed

lemma poll_user_events:
  "\<exists>evs1 evs2. events_of (poll_user cb strip list_of thread_data post_data w) = evs1 @ evs2 \<and>
     sorted (map ev_dateline evs1) \<and> (\<forall>e\<in>set evs1. is_user_thread e \<and> \<not> is_user_post e) \<and>
     sorted (map ev_dateline evs2) \<and> (\<forall>e\<in>set evs2. is_user_post e \<and> \<not> is_user_thread e)"
proof (cases "outcome_of (user_threads_check cb thread_data w) = Raised")
  case True
  then show ?thesis
    using user_threads_check_events [of cb thread_data w]
    by (intro exI[of _ "events_of (user_threads_check cb thread_data w)"] exI[of _ "[]"])
       (simp add: poll_user_def events_and_then)
next
  case False
  let ?w1 = "fst (user_threads_check cb thread_data w)"
  from False show ?thesis
    using user_threads_check_events [of cb thread_data w]
      user_posts_check_events [of cb strip post_data ?w1]
    by (intro exI[of _ "events_of (user_threads_check cb thread_data w)"]
        exI[of _ "events_of (user_posts_check cb strip post_data ?w1)"])
       (simp add: poll_user_def events_and_then events_of_simp)
qed

lemma filter_all: "\<forall>e\<in>set evs. P e \<Longrightarrow> filter P evs = evs"
  by (induction evs) auto

lemma filter_none: "\<forall>e\<in>set evs. \<not> P e \<Longrightarrow> filter P evs = []"
  by (induction evs) auto

lemma filter_kinds:
  assumes "\<forall>e\<in>set evs1. P e \<and> \<not> Q e" "\<forall>e\<in>set evs2. Q e \<and> \<not> P e"
  shows "filter P (evs1 @ evs2) = evs1" "filter Q (evs1 @ evs2) = evs2"
proof -
  from assms have "filter P evs1 = evs1" "filter P evs2 = []" "filter Q evs1 = []" "filter Q evs2 = evs2"
    by (simp_all add: filter_all filter_none)
  then show "filter P (evs1 @ evs2) = evs1" "filter Q (evs1 @ evs2) = evs2"
    by simp_all
qed

lemma poll_user_sorted:
  "sorted (map ev_dateline (filter is_user_thread (events_of (poll_user cb strip list_of thread_data post_data w)))) \<and>
   sorted (map ev_dateline (filter is_user_post (events_of (poll_user cb strip list_of thread_data post_data w))))"
proof -
  from poll_user_events [of cb strip list_of thread_data post_data w]
  obtain evs1 evs2 where
    e: "events_of (poll_user cb strip list_of thread_data post_data w) = evs1 @ evs2"
    and s1: "sorted (map ev_dateline evs1)" and s2: "sorted (map ev_dateline evs2)"
    and k1: "\<forall>e\<in>set evs1. is_user_thread e \<and> \<not> is_user_post e"
    and k2: "\<forall>e\<in>set evs2. is_user_post e \<and> \<not> is_user_thread e"
    by (elim exE conjE)
  have f1: "filter is_user_thread (evs1 @ evs2) = evs1"
    using k1 k2 by (rule filter_kinds(1))
  have f2: "filter is_user_post (evs1 @ evs2) = evs2"
    using k1 k2 by (rule filter_kinds(2))
  show ?thesis
    unfolding e f1 f2 using s1 s2 by (rule conjI)
qed

lemma emit_ok: "cb ev \<Longrightarrow> emit cb ev s = (s, [ev], Completed)"
  by (simp add: emit_def)

lemma keyword_post_step:
  assumes "\<forall>e. cb e"
  shows "outcome_of (keyword_post cb matches strip fid tid subject p w) = Completed \<and>
     kw_seen_tids (fst (keyword_post cb matches strip fid tid subject p w)) = kw_seen_tids w \<and>
     kw_seen_pids (fst (keyword_post cb matches strip fid tid subject p w)) =
       (if matches (get_or '''' (p_message p)) then finsert (int_or0 (p_pid p)) (kw_seen_pids w)
        else kw_seen_pids w)"
  using assms
  by (auto simp: keyword_post_def Let_def emit_ok outcome_of_def)

lemma for_each_Cons_Completed:
  "outcome_of (body x s) = Completed \<Longrightarrow>
   fst (for_each body (x # xs) s) = fst (for_each body xs (fst (body x s))) \<and>
   outcome_of (for_each body (x # xs) s) = outcome_of (for_each body xs (fst (body x s))) \<and>
   events_of (for_each body (x # xs) s) = events_of (body x s) @ events_of (for_each body xs (fst (body x s)))"
  by (cases "body x s") (auto simp: and_then_def outcome_of_def events_of_def split: prod.splits)

lemma for_each_Cons_Raised:
  "outcome_of (body x s) = Raised \<Longrightarrow> for_each body (x # xs) s = body x s"
  by (cases "body x s") (auto simp: and_then_def outcome_of_def)

lemma keyword_posts_loop:
  assumes "\<forall>e. cb e"
  shows "outcome_of (for_each (keyword_post cb matches strip fid tid subject) posts w) = Completed \<and>
     kw_seen_tids (fst (for_each (keyword_post cb matches strip fid tid subject) posts w)) = kw_seen_tids w \<and>
     kw_seen_pids (fst (for_each (keyword_post cb matches strip fid tid subject) posts w)) =
       kw_seen_pids w |\<union>| fset_of_list (map (\<lambda>p. int_or0 (p_pid p))
          (filter (\<lambda>p. matches (get_or '''' (p_message p))) posts))"
proof (induction posts arbitrary: w)
  case Nil
  then show ?case by (simp add: outcome_of_def)
next
  case (Cons p posts)
  note step = keyword_post_step [OF assms, of matches strip fid tid subject p w]
  from step have c: "outcome_of (keyword_post cb matches strip fid tid subject p w) = Completed"
    by simp
  note unroll = for_each_Cons_Completed [where body = "keyword_post cb matches strip fid tid subject"
      and x = p and s = w and xs = posts, OF c]
  show ?case
    using unroll Cons.IH [of "fst (keyword_post cb matches strip fid tid subject p w)"] step
    by auto
qed

lemma keyword_thread_seen:
  "int_or0 (t_tid t) |\<in>| kw_seen_tids w \<Longrightarrow>
   keyword_thread cb matches strip now read_posts fid t w = (w, [], Completed)"
  by (simp add: keyword_thread_def Let_def)

lemma fst_and_then_Completed:
  "outcome_of r = Completed \<Longrightarrow>
   fst (and_then r f) = fst (f (fst r)) \<and> outcome_of (and_then r f) = outcome_of (f (fst r)) \<and>
   events_of (and_then r f) = events_of r @ events_of (f (fst r))"
  by (cases r) (auto simp: and_then_def outcome_of_def events_of_def split: prod.splits)

lemma fold_seed_tid:
  "fold seed_tid ts seen =
     seen |\<union>| fset_of_list (filter (\<lambda>x. x \<noteq> 0) (map (\<lambda>t. int_or0 (t_tid t)) ts))"
  by (induction ts arbitrary: seen) (auto simp: seed_tid_def Let_def)

lemma forum_thread_step:
  "fw_initialized (fst (forum_thread cb t w)) = fw_initialized w \<and>
   fw_seen_tids w |\<subseteq>| fw_seen_tids (fst (forum_thread cb t w)) \<and>
   (int_or0 (t_tid t) = 0 \<or> int_or0 (t_tid t) |\<in>| fw_seen_tids w \<longrightarrow>
      forum_thread cb t w = (w, [], Completed)) \<and>
   (int_or0 (t_tid t) \<noteq> 0 \<and> int_or0 (t_tid t) |\<notin>| fw_seen_tids w \<longrightarrow>
      (\<exists>ev. events_of (forum_thread cb t w) = [ev] \<and> is_new_thread ev \<and>
         ev_tid ev = Some (int_or0 (t_tid t)) \<and>
         outcome_of (forum_thread cb t w) = (if cb ev then Completed else Raised)) \<and>
      fw_seen_tids (fst (forum_thread cb t w)) = finsert (int_or0 (t_tid t)) (fw_seen_tids w))"
  by (auto simp: forum_thread_def Let_def emit_def events_of_def outcome_of_def)

lemma forum_loop_any:
  "fw_initialized (fst (for_each (forum_thread cb) ts w)) = fw_initialized w \<and>
   fw_seen_tids w |\<subseteq>| fw_seen_tids (fst (for_each (forum_thread cb) ts w)) \<and>
   list_all is_new_thread (events_of (for_each (forum_thread cb) ts w)) \<and>
   distinct (map ev_tid (events_of (for_each (forum_thread cb) ts w))) \<and>
   (\<forall>e\<in>set (events_of (for_each (forum_thread cb) ts w)).
      \<exists>tid. ev_tid e = Some tid \<and> tid \<noteq> 0 \<and> tid |\<notin>| fw_seen_tids w \<and>
        tid \<in> set (map (\<lambda>t. int_or0 (t_tid t)) ts) \<and>
        tid |\<in>| fw_seen_tids (fst (for_each (forum_thread cb) ts w)))"
proof (induction ts arbitrary: w)
  case Nil
  then show ?case by (simp add: events_of_def)
next
  case (Cons t ts)
  let ?tid = "int_or0 (t_tid t)"
  let ?r = "forum_thread cb t w"
  note step = forum_thread_step [of cb t w]
  show ?case
  proof (cases "?tid = 0 \<or> ?tid |\<in>| fw_seen_tids w")
    case True
    with step have skip: "?r = (w, [], Completed)" by blast
    have "for_each (forum_thread cb) (t # ts) w = for_each (forum_thread cb) ts w"
      by (simp add: skip and_then_skip)
    then show ?thesis using Cons.IH [of w] by auto
  next
    case False
    with step obtain ev where ev: "events_of ?r = [ev]" "is_new_thread ev" "ev_tid ev = Some ?tid"
      "outcome_of ?r = (if cb ev then Completed else Raised)"
      and seen1: "fw_seen_tids (fst ?r) = finsert ?tid (fw_seen_tids w)"
      by blast
    show ?thesis
    proof (cases "cb ev")
      case True
      with ev have c: "outcome_of ?r = Completed" by simp
      note unroll = for_each_Cons_Completed [where body = "forum_thread cb" and x = t and s = w
          and xs = ts, OF c]
      note IH = Cons.IH [of "fst ?r"]
      have init: "fw_initialized (fst (for_each (forum_thread cb) (t # ts) w)) = fw_initialized w"
        using unroll IH step by simp
      have sub: "fw_seen_tids w |\<subseteq>| fw_seen_tids (fst (for_each (forum_thread cb) (t # ts) w))"
        using unroll IH step by auto
      have tid_in: "?tid |\<in>| fw_seen_tids (fst (for_each (forum_thread cb) (t # ts) w))"
        using unroll IH seen1 by auto
      have evs: "events_of (for_each (forum_thread cb) (t # ts) w) =
          ev # events_of (for_each (forum_thread cb) ts (fst ?r))"
        using unroll ev by simp
      have rest: "\<forall>e\<in>set (events_of (for_each (forum_thread cb) ts (fst ?r))).
          \<exists>tid. ev_tid e = Some tid \<and> tid \<noteq> 0 \<and> tid \<noteq> ?tid \<and> tid |\<notin>| fw_seen_tids w \<and>
            tid \<in> set (map (\<lambda>t. int_or0 (t_tid t)) ts) \<and>
            tid |\<in>| fw_seen_tids (fst (for_each (forum_thread cb) (t # ts) w))"
        using IH unroll seen1 by auto
      have d: "distinct (map ev_tid (events_of (for_each (forum_thread cb) (t # ts) w)))"
        unfolding evs using IH rest ev(3) by auto
      have a: "list_all is_new_thread (events_of (for_each (forum_thread cb) (t # ts) w))"
        unfolding evs using IH ev(2) by simp
      have m: "\<forall>e\<in>set (events_of (for_each (forum_thread cb) (t # ts) w)).
          \<exists>tid. ev_tid e = Some tid \<and> tid \<noteq> 0 \<and> tid |\<notin>| fw_seen_tids w \<and>
            tid \<in> set (map (\<lambda>t. int_or0 (t_tid t)) (t # ts)) \<and>
            tid |\<in>| fw_seen_tids (fst (for_each (forum_thread cb) (t # ts) w))"
        unfolding evs using rest ev(3) False tid_in by auto
      from init sub a d m show ?thesis by blast
    next
      case cbF: False
      with ev have c: "outcome_of ?r = Raised" by simp
      have whole: "for_each (forum_thread cb) (t # ts) w = ?r"
        using c by (rule for_each_Cons_Raised)
      show ?thesis
        unfolding whole using step ev seen1 False by auto
    qed
  qed
qed

lemma forum_loop_ok:
  assumes "\<forall>e. cb e"
  shows "outcome_of (for_each (forum_thread cb) ts w) = Completed \<and>
   set (map ev_tid (events_of (for_each (forum_thread cb) ts w))) =
     Some ` {tid \<in> set (map (\<lambda>t. int_or0 (t_tid t)) ts). tid \<noteq> 0 \<and> tid |\<notin>| fw_seen_tids w}"
proof (induction ts arbitrary: w)
  case Nil
  then show ?case by (simp add: events_of_def outcome_of_def)
next
  case (Cons t ts)
  let ?tid = "int_or0 (t_tid t)"
  let ?r = "forum_thread cb t w"
  note step = forum_thread_step [of cb t w]
  show ?case
  proof (cases "?tid = 0 \<or> ?tid |\<in>| fw_seen_tids w")
    case True
    with step have skip: "?r = (w, [], Completed)" by blast
    have "for_each (forum_thread cb) (t # ts) w = for_each (forum_thread cb) ts w"
      by (simp add: skip and_then_skip)
    then show ?thesis using Cons.IH [of w] True by auto
  next
    case False
    with step assms obtain ev where ev: "events_of ?r = [ev]" "ev_tid ev = Some ?tid"
      and c: "outcome_of ?r = Completed"
      and seen1: "fw_seen_tids (fst ?r) = finsert ?tid (fw_seen_tids w)"
      by auto
    note unroll = for_each_Cons_Completed [where body = "forum_thread cb" and x = t and s = w
        and xs = ts, OF c]
    note IH = Cons.IH [of "fst ?r"]
    have out: "outcome_of (for_each (forum_thread cb) (t # ts) w) = Completed"
      using unroll IH by simp
    have "set (map ev_tid (events_of (for_each (forum_thread cb) (t # ts) w))) =
        insert (Some ?tid) (Some ` {tid \<in> set (map (\<lambda>t. int_or0 (t_tid t)) ts).
           tid \<noteq> 0 \<and> tid |\<notin>| finsert ?tid (fw_seen_tids w)})"
      using unroll IH ev seen1 by simp
    also have "\<dots> = Some ` {tid \<in> set (map (\<lambda>t. int_or0 (t_tid t)) (t # ts)).
           tid \<noteq> 0 \<and> tid |\<notin>| fw_seen_tids w}"
      using False by auto
    finally have "set (map ev_tid (events_of (for_each (forum_thread cb) (t # ts) w))) =
        Some ` {tid \<in> set (map (\<lambda>t. int_or0 (t_tid t)) (t # ts)).
           tid \<noteq> 0 \<and> tid |\<notin>| fw_seen_tids w}" .
    with out show ?thesis by (rule conjI)
  qed
qed

lemma and_then_when_Raised: "outcome_of r = Raised \<Longrightarrow> and_then r f = r"
  by (cases r) (auto simp: and_then_def outcome_of_def)

lemma poll_forum_events:
  "fw_initialized w \<Longrightarrow>
   events_of (poll_forum cb list_of (Rows threads) w) =
     events_of (for_each (forum_thread cb) (sort_key (\<lambda>x. int_or0 (t_dateline x)) threads) w) \<and>
   outcome_of (poll_forum cb list_of (Rows threads) w) =
     outcome_of (for_each (forum_thread cb) (sort_key (\<lambda>x. int_or0 (t_dateline x)) threads) w)"
  by (cases "outcome_of (for_each (forum_thread cb) (sort_key (\<lambda>x. int_or0 (t_dateline x)) threads) w)")
     (simp_all add: poll_forum_def and_then_when_Raised fst_and_then_Completed events_of_simp
        outcome_of_simp)

lemma poll_forum_new_only:
  assumes "fw_initialized w"
  shows "list_all is_new_thread (events_of (poll_forum cb list_of data w)) \<and>
     distinct (map ev_tid (events_of (poll_forum cb list_of data w))) \<and>
     (\<forall>e\<in>set (events_of (poll_forum cb list_of data w)).
        \<exists>tid. ev_tid e = Some tid \<and> tid \<noteq> 0 \<and> tid |\<notin>| fw_seen_tids w)"
proof (cases data)
  case (Rows threads)
  show ?thesis
    unfolding Rows poll_forum_events [OF assms, THEN conjunct1]
    using forum_loop_any [of cb "sort_key (\<lambda>x. int_or0 (t_dateline x)) threads" w]
    by blast
qed (simp_all add: poll_forum_def events_of_def)

lemma poll_forum_raised:
  assumes "fw_initialized w" and "outcome_of (poll_forum cb list_of data w) = Raised"
  shows "fw_initialized (fst (poll_forum cb list_of data w)) \<and>
     (\<forall>e\<in>set (events_of (poll_forum cb list_of data w)).
        \<exists>tid. ev_tid e = Some tid \<and> tid |\<in>| fw_seen_tids (fst (poll_forum cb list_of data w)))"
proof (cases data)
  case (Rows threads)
  let ?loop = "for_each (forum_thread cb) (sort_key (\<lambda>x. int_or0 (t_dateline x)) threads) w"
  from assms Rows have "outcome_of ?loop = Raised"
    by (simp add: poll_forum_events)
  then have "poll_forum cb list_of data w = ?loop"
    using assms(1) by (simp add: Rows poll_forum_def and_then_when_Raised)
  then show ?thesis
    using forum_loop_any [of cb "sort_key (\<lambda>x. int_or0 (t_dateline x)) threads" w] assms(1)
    by auto
qed (use assms in \<open>simp_all add: poll_forum_def events_of_def\<close>)

lemma fcard_upto_500: "fcard (fset_of_list [1..500]) = 500"
  by (simp add: fcard.rep_eq fset_of_list.rep_eq)

lemma fcard_upto_501: "fcard (finsert 4096 (fset_of_list [1..500])) = 501"
  by (simp add: fcard.rep_eq fset_of_list.rep_eq)

lemma ascending_501:
  "sorted_list_of_fset (finsert 4096 (fset_of_list [1..500])) = [1..500] @ [4096]"
proof -
  have "fset (finsert 4096 (fset_of_list [1..500])) = set ([1..500] @ [4096])"
    by (simp add: fset_of_list.rep_eq)
  moreover have "sorted ([1..500] @ [4096::int])" "distinct ([1..500] @ [4096::int])"
    by (simp_all add: sorted_append)
  ultimately show ?thesis
    by (simp only: sorted_list_of_fset.rep_eq sorted_list_of_set.idem_if_sorted_distinct)
qed

lemma sort_key_snoc_least:
  assumes "\<forall>y\<in>set ys. f x < f y" and "sorted (map f ys)"
  shows "sort_key f (ys @ [x]) = x # ys"
proof -
  have ins: "\<And>y zs. f x < f y \<Longrightarrow> insort_key f y (x # zs) = x # insort_key f y zs"
    by (auto dest: leD)
  have "foldr (insort_key f) ys [x] = x # foldr (insort_key f) ys []"
    using assms(1) by (induction ys) (auto dest: leD)
  then have "sort_key f (ys @ [x]) = x # sort_key f ys"
    by (simp add: sort_key_def)
  with assms(2) show ?thesis
    by (simp add: sort_key_id_if_sorted)
qed

lemma slot_order_501:
  "slot_order 2048 (finsert 4096 (fset_of_list [1..500])) = 4096 # [1..500]"
proof -
  have same: "map (\<lambda>n. n mod 2048) [1..500] = [1..500]"
    by (rule map_idI) simp
  have "sort_key (\<lambda>n. n mod 2048) ([1..500] @ [4096]) = 4096 # [1..500]"
    by (rule sort_key_snoc_least) (simp_all add: same)
  then show ?thesis
    by (simp add: slot_order_def ascending_501)
qed

lemma last_250_of_501: "last_n 250 (4096 # [1..500]) = [251..500]"
proof -
  have "[1..500] = [1..250] @ [251..500::int]"
    using upto_split2 [of 1 250 500] by simp
  moreover have "length [1..250::int] = 250"
    by simp
  ultimately have "drop 250 [1..500] = [251..500::int]"
    by (metis append_eq_conv_conj)
  then show ?thesis
    by (simp add: last_n_def)
qed

lemma trim_501:
  "trim (slot_order 2048) 500 250 (finsert 4096 (fset_of_list [1..500])) = fset_of_list [251..500]"
  by (simp add: trim_def fcard_upto_501 slot_order_501 last_250_of_501)

section \<open>Claims about the forum watch\<close>

text \<open>
  C2. A poll of a forum watch that is not initialized and receives rows adds every thread
  id among them (an id is not zero) to the seen-set, sets the flag and gives the callback
  nothing. A poll of an initialized watch gives the callback only \<^verbatim>\<open>new_thread\<close> events, no two
  for one thread id and none for an id in the seen-set; when no callback raises, the ids of
  the events are exactly the fetched ids that are not in the seen-set. When a callback
  raises, every id the poll gave to the callback, the one it raised on included, is in the
  seen-set the poll leaves, and no event of the next poll carries it.
\<close>

theorem forum_watch_seeds_then_emits_new:
  "(\<not> fw_initialized w \<longrightarrow>
      poll_forum cb list_of (Rows threads) w =
        (w\<lparr>fw_seen_tids := fw_seen_tids w |\<union>|
              fset_of_list (filter (\<lambda>x. x \<noteq> 0) (map (\<lambda>t. int_or0 (t_tid t)) threads)),
           fw_initialized := True\<rparr>, [], Completed))
   \<and> (fw_initialized w \<longrightarrow>
      list_all is_new_thread (events_of (poll_forum cb list_of data w)) \<and>
      distinct (map ev_tid (events_of (poll_forum cb list_of data w))) \<and>
      (\<forall>e\<in>set (events_of (poll_forum cb list_of data w)).
         \<exists>tid. ev_tid e = Some tid \<and> tid \<noteq> 0 \<and> tid |\<notin>| fw_seen_tids w))
   \<and> (fw_initialized w \<and> (\<forall>e. cb e) \<longrightarrow>
      outcome_of (poll_forum cb list_of (Rows threads) w) = Completed \<and>
      set (map ev_tid (events_of (poll_forum cb list_of (Rows threads) w))) =
        Some ` {tid \<in> set (map (\<lambda>t. int_or0 (t_tid t)) threads). tid \<noteq> 0 \<and> tid |\<notin>| fw_seen_tids w})
   \<and> (fw_initialized w \<and> outcome_of (poll_forum cb list_of data w) = Raised \<longrightarrow>
      (\<forall>e\<in>set (events_of (poll_forum cb list_of data w)).
         (\<exists>tid. ev_tid e = Some tid \<and> tid |\<in>| fw_seen_tids (fst (poll_forum cb list_of data w))) \<and>
         ev_tid e \<notin> set (map ev_tid
            (events_of (poll_forum cb_next list_of_next data_next (fst (poll_forum cb list_of data w)))))))"
proof -
  have a: "\<not> fw_initialized w \<Longrightarrow>
      poll_forum cb list_of (Rows threads) w =
        (w\<lparr>fw_seen_tids := fw_seen_tids w |\<union>|
              fset_of_list (filter (\<lambda>x. x \<noteq> 0) (map (\<lambda>t. int_or0 (t_tid t)) threads)),
           fw_initialized := True\<rparr>, [], Completed)"
    by (simp add: poll_forum_def fold_seed_tid)
  have c: "fw_initialized w \<Longrightarrow> \<forall>e. cb e \<Longrightarrow>
      outcome_of (poll_forum cb list_of (Rows threads) w) = Completed \<and>
      set (map ev_tid (events_of (poll_forum cb list_of (Rows threads) w))) =
        Some ` {tid \<in> set (map (\<lambda>t. int_or0 (t_tid t)) threads). tid \<noteq> 0 \<and> tid |\<notin>| fw_seen_tids w}"
    using forum_loop_ok [of cb "sort_key (\<lambda>x. int_or0 (t_dateline x)) threads" w]
    by (simp add: poll_forum_events)
  have d: "fw_initialized w \<Longrightarrow> outcome_of (poll_forum cb list_of data w) = Raised \<Longrightarrow>
      e \<in> set (events_of (poll_forum cb list_of data w)) \<Longrightarrow>
         (\<exists>tid. ev_tid e = Some tid \<and> tid |\<in>| fw_seen_tids (fst (poll_forum cb list_of data w))) \<and>
         ev_tid e \<notin> set (map ev_tid
            (events_of (poll_forum cb_next list_of_next data_next (fst (poll_forum cb list_of data w)))))" for e
  proof -
    assume init: "fw_initialized w" and r: "outcome_of (poll_forum cb list_of data w) = Raised"
      and e: "e \<in> set (events_of (poll_forum cb list_of data w))"
    let ?w1 = "fst (poll_forum cb list_of data w)"
    from poll_forum_raised [OF init r] e obtain tid where
      init1: "fw_initialized ?w1" and tid: "ev_tid e = Some tid" "tid |\<in>| fw_seen_tids ?w1"
      by blast
    from poll_forum_new_only [OF init1, of cb_next list_of_next data_next]
    have "\<forall>e'\<in>set (events_of (poll_forum cb_next list_of_next data_next ?w1)).
        \<exists>tid'. ev_tid e' = Some tid' \<and> tid' \<noteq> 0 \<and> tid' |\<notin>| fw_seen_tids ?w1"
      by blast
    with tid have "ev_tid e \<notin> set (map ev_tid (events_of (poll_forum cb_next list_of_next data_next ?w1)))"
      by auto
    with tid show ?thesis by blast
  qed
  from a poll_forum_new_only [of w cb list_of data] c d show ?thesis
    by blast
qed

theorem forum_watch_seeds_then_emits_new_witness:
  "\<not> fw_initialized forum_new
   \<and> poll_forum cb_ok sorted_list_of_fset (Rows five_threads) forum_new = (forum_seeded, [], Completed)
   \<and> fw_initialized forum_seeded
   \<and> (\<forall>e. cb_ok e)
   \<and> distinct (map ev_tid (events_of (poll_forum cb_ok sorted_list_of_fset (Rows six_threads) forum_seeded)))
   \<and> set (map ev_tid (events_of (poll_forum cb_ok sorted_list_of_fset (Rows six_threads) forum_seeded)))
        = {Some 6}
   \<and> outcome_of (poll_forum cb_fail sorted_list_of_fset (Rows six_threads) forum_seeded) = Raised
   \<and> events_of (poll_forum cb_fail sorted_list_of_fset (Rows six_threads) forum_seeded)
        = [NewThread 25 6 ''761578'' ''f'' 60]
   \<and> Some 6 \<notin> set (map ev_tid (events_of (poll_forum cb_ok sorted_list_of_fset (Rows six_threads)
          (fst (poll_forum cb_fail sorted_list_of_fset (Rows six_threads) forum_seeded)))))"
proof -
  have new: "\<not> fw_initialized forum_new"
    by (simp add: forum_new_def)
  have seeded: "fw_initialized forum_seeded"
    by (simp add: forum_seeded_def)
  have ok: "\<forall>e. cb_ok e"
    by (simp add: cb_ok_def)
  have raised: "poll_forum cb_fail sorted_list_of_fset (Rows six_threads) forum_seeded =
      (forum_seeded\<lparr>fw_seen_tids := {|6, 1, 2, 3, 4, 5|}\<rparr>, [NewThread 25 6 ''761578'' ''f'' 60], Raised)"
    by (simp add: poll_forum_def six_threads_def five_threads_def forum_seeded_def thread_of_def
        forum_thread_def int_or0_def get_or_def emit_def cb_fail_def and_then_Completed
        and_then_Raised events_of_def outcome_of_def Let_def)
  have r1: "outcome_of (poll_forum cb_fail sorted_list_of_fset (Rows six_threads) forum_seeded) = Raised"
    and r2: "events_of (poll_forum cb_fail sorted_list_of_fset (Rows six_threads) forum_seeded)
        = [NewThread 25 6 ''761578'' ''f'' 60]"
    by (simp_all add: raised outcome_of_def events_of_def)
  note first = forum_watch_seeds_then_emits_new [where w = forum_new and cb = cb_ok
      and list_of = sorted_list_of_fset and threads = five_threads]
  note later = forum_watch_seeds_then_emits_new [where w = forum_seeded and cb = cb_ok
      and list_of = sorted_list_of_fset and threads = six_threads and data = "Rows six_threads"]
  note failing = forum_watch_seeds_then_emits_new [where w = forum_seeded and cb = cb_fail
      and list_of = sorted_list_of_fset and data = "Rows six_threads" and cb_next = cb_ok
      and list_of_next = sorted_list_of_fset and data_next = "Rows six_threads"]
  from first new have 1: "poll_forum cb_ok sorted_list_of_fset (Rows five_threads) forum_new
      = (forum_seeded, [], Completed)"
    by (auto simp: forum_new_def five_threads_def forum_seeded_def thread_of_def int_or0_def)
  from later seeded have 2: "distinct (map ev_tid (events_of
      (poll_forum cb_ok sorted_list_of_fset (Rows six_threads) forum_seeded)))"
    by blast
  from later seeded ok have "set (map ev_tid (events_of
      (poll_forum cb_ok sorted_list_of_fset (Rows six_threads) forum_seeded))) =
      Some ` {tid \<in> set (map (\<lambda>t. int_or0 (t_tid t)) six_threads).
                tid \<noteq> 0 \<and> tid |\<notin>| fw_seen_tids forum_seeded}"
    by blast
  also have "\<dots> = {Some 6}"
    by (auto simp: six_threads_def five_threads_def forum_seeded_def thread_of_def int_or0_def)
  finally have 3: "set (map ev_tid (events_of
      (poll_forum cb_ok sorted_list_of_fset (Rows six_threads) forum_seeded))) = {Some 6}" .
  from failing seeded r1 have "\<forall>e\<in>set (events_of
        (poll_forum cb_fail sorted_list_of_fset (Rows six_threads) forum_seeded)).
      ev_tid e \<notin> set (map ev_tid (events_of (poll_forum cb_ok sorted_list_of_fset (Rows six_threads)
          (fst (poll_forum cb_fail sorted_list_of_fset (Rows six_threads) forum_seeded)))))"
    by blast
  then have 4: "Some 6 \<notin> set (map ev_tid (events_of (poll_forum cb_ok sorted_list_of_fset
      (Rows six_threads) (fst (poll_forum cb_fail sorted_list_of_fset (Rows six_threads) forum_seeded)))))"
    unfolding r2 by simp
  from new 1 seeded ok 2 3 r1 r2 4 show ?thesis
    by blast
qed

section \<open>Claims about the keyword watch\<close>

text \<open>
  C6, as the claim states it, fails. In the example cycle thread 13 is scanned (it is not
  seen, its subject does not match, it is ten seconds old) and its post 77 is tested and
  does not match: after the poll 77 is not in the post-seen-set. What the poll has marked
  is the thread.
\<close>

theorem unmatched_post_not_marked:
  "77 |\<notin>| kw_seen_pids kw_watch
   \<and> 77 |\<notin>| kw_seen_pids (fst (poll_keyword cb_ok kw_matches id 250 sorted_list_of_fset
                  kw_one_thread kw_one_post kw_watch))
   \<and> 13 |\<in>| kw_seen_tids (fst (poll_keyword cb_ok kw_matches id 250 sorted_list_of_fset
                  kw_one_thread kw_one_post kw_watch))"
  by (simp add: poll_keyword_def kw_watch_def keyword_forum_def kw_one_thread_def kw_one_post_def
      keyword_thread_def keyword_post_def thread_of_def int_or0_def get_or_def kw_matches_def
      emit_def cb_ok_def and_then_Completed and_then_Raised Let_def events_of_def outcome_of_def
      trim_def fcard_finsert_if fcard_fempty)

text \<open>
  C6 as amended. When a thread is scanned (its id is not zero and not in the thread-seen-set,
  its subject does not match, it is not older than 3600 seconds, and its posts are fetched)
  and no callback raises: the post-seen-set gains exactly the ids of the scanned posts whose
  body matches, and no id of a post that does not match; the thread-seen-set gains the
  thread id whatever the posts were; and a later visit of the thread, with that thread-seen-set,
  fetches and tests nothing.
\<close>

theorem keyword_scan_marks_matching_posts_and_thread:
  assumes "int_or0 (t_tid t) \<noteq> 0" and "int_or0 (t_tid t) |\<notin>| kw_seen_tids w"
    and "\<not> matches (get_or '''' (t_subject t))"
    and "\<not> now - real_of_int (int_or0 (t_dateline t)) > 3600"
    and "read_posts (int_or0 (t_tid t)) = Rows posts"
    and "\<forall>e. cb e"
  shows "outcome_of (keyword_thread cb matches strip now read_posts fid t w) = Completed
    \<and> kw_seen_pids (fst (keyword_thread cb matches strip now read_posts fid t w)) =
        kw_seen_pids w |\<union>| fset_of_list (map (\<lambda>p. int_or0 (p_pid p))
          (filter (\<lambda>p. matches (get_or '''' (p_message p))) posts))
    \<and> kw_seen_tids (fst (keyword_thread cb matches strip now read_posts fid t w)) =
        finsert (int_or0 (t_tid t)) (kw_seen_tids w)
    \<and> keyword_thread cb_later matches_later strip_later now_later read_posts_later fid_later t
         (fst (keyword_thread cb matches strip now read_posts fid t w))
        = (fst (keyword_thread cb matches strip now read_posts fid t w), [], Completed)"
proof -
  let ?tid = "int_or0 (t_tid t)"
  let ?loop = "for_each (keyword_post cb matches strip fid ?tid (get_or '''' (t_subject t))) posts w"
  let ?R = "keyword_thread cb matches strip now read_posts fid t w"
  have R: "?R = and_then ?loop (\<lambda>w1. (w1\<lparr>kw_seen_tids := finsert ?tid (kw_seen_tids w1)\<rparr>, [], Completed))"
    using assms(1-5) by (simp add: keyword_thread_def Let_def)
  note loop = keyword_posts_loop [OF assms(6), of matches strip fid ?tid "get_or '''' (t_subject t)" posts w]
  from loop have c: "outcome_of ?loop = Completed" by simp
  note seq = fst_and_then_Completed [OF c,
      of "\<lambda>w1. (w1\<lparr>kw_seen_tids := finsert ?tid (kw_seen_tids w1)\<rparr>, [], Completed)"]
  have 1: "outcome_of ?R = Completed"
    unfolding R using seq by (simp add: outcome_of_def)
  have 2: "kw_seen_pids (fst ?R) = kw_seen_pids w |\<union>| fset_of_list (map (\<lambda>p. int_or0 (p_pid p))
          (filter (\<lambda>p. matches (get_or '''' (p_message p))) posts))"
    unfolding R using seq loop by simp
  have 3: "kw_seen_tids (fst ?R) = finsert ?tid (kw_seen_tids w)"
    unfolding R using seq loop by simp
  have "?tid |\<in>| kw_seen_tids (fst ?R)"
    unfolding 3 by simp
  then have 4: "keyword_thread cb_later matches_later strip_later now_later read_posts_later fid_later t (fst ?R) = (fst ?R, [], Completed)"
    by (rule keyword_thread_seen)
  from 1 2 3 4 show ?thesis by blast
qed

theorem keyword_scan_marks_matching_posts_and_thread_witness:
  "int_or0 (t_tid (thread_of 13 ''hello'' 240)) \<noteq> 0
   \<and> int_or0 (t_tid (thread_of 13 ''hello'' 240)) |\<notin>| kw_seen_tids kw_watch
   \<and> \<not> kw_matches (get_or '''' (t_subject (thread_of 13 ''hello'' 240)))
   \<and> \<not> 250 - real_of_int (int_or0 (t_dateline (thread_of 13 ''hello'' 240))) > 3600
   \<and> outcome_of (keyword_thread cb_ok kw_matches id 250 kw_one_post 25
         (thread_of 13 ''hello'' 240) kw_watch) = Completed
   \<and> kw_seen_pids (fst (keyword_thread cb_ok kw_matches id 250 kw_one_post 25
         (thread_of 13 ''hello'' 240) kw_watch)) = {||}
   \<and> kw_seen_tids (fst (keyword_thread cb_ok kw_matches id 250 kw_one_post 25
         (thread_of 13 ''hello'' 240) kw_watch)) = {|13|}"
proof -
  let ?t = "thread_of 13 ''hello'' 240"
  have 1: "int_or0 (t_tid ?t) \<noteq> 0"
    by (simp add: thread_of_def int_or0_def)
  have 2: "int_or0 (t_tid ?t) |\<notin>| kw_seen_tids kw_watch"
    by (simp add: kw_watch_def)
  have 3: "\<not> kw_matches (get_or '''' (t_subject ?t))"
    by (simp add: thread_of_def get_or_def kw_matches_def)
  have 4: "\<not> 250 - real_of_int (int_or0 (t_dateline ?t)) > 3600"
    by (simp add: thread_of_def int_or0_def)
  have 5: "kw_one_post (int_or0 (t_tid ?t)) =
      Rows [\<lparr>p_pid = Some 77, p_tid = None, p_uid = None, p_subject = None,
            p_dateline = Some 245, p_message = Some ''nothing here''\<rparr>]"
    by (simp add: kw_one_post_def)
  have 6: "\<forall>e. cb_ok e"
    by (simp add: cb_ok_def)
  from keyword_scan_marks_matching_posts_and_thread [where t = ?t and w = kw_watch
      and matches = kw_matches and now = 250 and read_posts = kw_one_post and cb = cb_ok
      and strip = id and fid = 25, OF 1 2 3 4 5 6]
  have "outcome_of (keyword_thread cb_ok kw_matches id 250 kw_one_post 25 ?t kw_watch) = Completed
   \<and> kw_seen_pids (fst (keyword_thread cb_ok kw_matches id 250 kw_one_post 25 ?t kw_watch)) = {||}
   \<and> kw_seen_tids (fst (keyword_thread cb_ok kw_matches id 250 kw_one_post 25 ?t kw_watch)) = {|13|}"
    by (simp add: kw_watch_def kw_matches_def get_or_def thread_of_def int_or0_def)
  with 1 2 3 4 show ?thesis by blast
qed

section \<open>Claims about the order of events\<close>

text \<open>
  C7, as the claim states it, fails. In the example cycle of the keyword watch the forum
  lists thread 11 (dateline 200) before thread 12 (dateline 100), both subjects match, and
  the events go to the callback in that order: datelines 200, then 100. In the example
  cycle of the user watch the new thread (dateline 300) is given to the callback by the
  thread sub-check, before the post sub-check gives it the new post (dateline 100).
\<close>

theorem keyword_events_unsorted:
  "map ev_dateline (events_of (poll_keyword cb_ok kw_matches id 250 sorted_list_of_fset
       kw_two_threads (\<lambda>tid. NoData) kw_watch)) = [200, 100]
   \<and> \<not> sorted (map ev_dateline (events_of (poll_keyword cb_ok kw_matches id 250 sorted_list_of_fset
       kw_two_threads (\<lambda>tid. NoData) kw_watch)))
   \<and> map ev_dateline (events_of (poll_user cb_ok id sorted_list_of_fset
       user_new_thread user_new_post user_seeded)) = [300, 100]
   \<and> \<not> sorted (map ev_dateline (events_of (poll_user cb_ok id sorted_list_of_fset
       user_new_thread user_new_post user_seeded)))"
  by (simp add: poll_keyword_def kw_watch_def keyword_forum_def kw_two_threads_def
      keyword_thread_def thread_of_def int_or0_def get_or_def kw_matches_def
      emit_def cb_ok_def and_then_Completed and_then_Raised Let_def events_of_def outcome_of_def
      trim_def fcard_finsert_if fcard_fempty
      poll_user_def user_threads_check_def user_posts_check_def user_thread_def user_post_def
      user_seeded_def user_new_thread_def user_new_post_def)

text \<open>
  C7 as amended. Within one poll of a thread watch, of a forum watch and of a bytes watch,
  the events given to the callback are in non-decreasing dateline order. Within one poll of
  a user watch the \<^verbatim>\<open>user_thread\<close> events are in non-decreasing dateline order, and so
  are the \<^verbatim>\<open>user_post\<close> events. Nothing is stated for the keyword watch.
\<close>

theorem events_sorted_within_poll:
  "sorted (map ev_dateline (events_of (poll_thread cb strip list_of meta read_posts tw)))
   \<and> sorted (map ev_dateline (events_of (poll_forum cb list_of data fw)))
   \<and> sorted (map ev_dateline (events_of (poll_bytes cb me read_bytes bw)))
   \<and> sorted (map ev_dateline (filter is_user_thread
         (events_of (poll_user cb strip list_of thread_data post_data uw))))
   \<and> sorted (map ev_dateline (filter is_user_post
         (events_of (poll_user cb strip list_of thread_data post_data uw))))"
  using poll_thread_sorted [of cb strip list_of meta read_posts tw]
    poll_forum_sorted [of cb list_of data fw]
    poll_bytes_sorted [of cb me read_bytes bw]
    poll_user_sorted [of cb strip list_of thread_data post_data uw]
  by (simp only: simp_thms)

section \<open>Claims about the thread watch\<close>

text \<open>
  C9. The code at a failing input. The watch holds the 500 post ids 1 to 500, and the new
  reply has post id 4096. A poll whose callback returns adds 4096, finds 501 ids and trims:
  the enumeration of the set starts with 4096 (slot 0 of 2048), so the 250 ids kept are 251
  to 500, and the id added last is dropped while 250 older ids stay. A poll whose callback
  raises leaves before the trim, with 501 ids in the set.
\<close>

theorem thread_trim_drops_newest:
  "fcard (tw_seen_pids thread_watch_500) = 500
   \<and> poll_thread cb_ok id (slot_order 2048) thread_meta new_reply thread_watch_500 =
       (thread_watch_500\<lparr>tw_last_post := 2000, tw_seen_pids := fset_of_list [251..500]\<rparr>,
        [ThreadReply 6083735 (Some 4096) (Some ''761578'') ''Thread'' ''new reply'' 2000],
        Completed)
   \<and> 4096 |\<notin>| fset_of_list [251..500]
   \<and> 250 |\<in>| tw_seen_pids thread_watch_500 \<and> 250 |\<notin>| fset_of_list [251..500]
   \<and> outcome_of (poll_thread cb_fail id (slot_order 2048) thread_meta new_reply thread_watch_500)
       = Raised
   \<and> fcard (tw_seen_pids
        (fst (poll_thread cb_fail id (slot_order 2048) thread_meta new_reply thread_watch_500)))
       = 501"
proof -
  have not_seen: "4096 |\<notin>| fset_of_list [1..500]"
    by (simp add: fset_of_list.rep_eq)
  have ok: "poll_thread cb_ok id (slot_order 2048) thread_meta new_reply thread_watch_500 =
       (thread_watch_500\<lparr>tw_last_post := 2000, tw_seen_pids := fset_of_list [251..500]\<rparr>,
        [ThreadReply 6083735 (Some 4096) (Some ''761578'') ''Thread'' ''new reply'' 2000],
        Completed)"
    using not_seen
    by (simp add: poll_thread_def thread_meta_def new_reply_def thread_watch_500_def
        thread_post_def int_or0_def get_or_def emit_def cb_ok_def and_then_Completed
        events_of_def outcome_of_def Let_def trim_501)
  have raised: "poll_thread cb_fail id (slot_order 2048) thread_meta new_reply thread_watch_500 =
       (thread_watch_500\<lparr>tw_seen_pids := finsert 4096 (fset_of_list [1..500])\<rparr>,
        [ThreadReply 6083735 (Some 4096) (Some ''761578'') ''Thread'' ''new reply'' 2000],
        Raised)"
    using not_seen
    by (simp add: poll_thread_def thread_meta_def new_reply_def thread_watch_500_def
        thread_post_def int_or0_def get_or_def emit_def cb_fail_def and_then_Raised
        events_of_def outcome_of_def Let_def)
  show ?thesis
    unfolding ok raised
    by (simp add: thread_watch_500_def fcard_upto_500 fcard_upto_501 outcome_of_def
        fset_of_list.rep_eq)
qed

end
